theory Spec2Isabelle
  imports Main "HOL-Library.Multiset"
begin

section \<open>Error values, panic values and their formatting\<close>

text \<open>
  A Go \<^verbatim>\<open>error\<close> is an interface value: \<^verbatim>\<open>nil\<close> or a concrete error. The concrete
  errors that matter to the package are its own exported \<^verbatim>\<open>SuccessResult{}\<close>, the two
  errors of package \<^verbatim>\<open>context\<close>, and errors that carry a message only (what
  \<^verbatim>\<open>errors.New\<close> and \<^verbatim>\<open>fmt.Errorf\<close> without \<^verbatim>\<open>%w\<close> build). A possibly-nil
  \<^verbatim>\<open>error\<close> is an \<open>error option\<close>, \<open>None\<close> being \<^verbatim>\<open>nil\<close>.
\<close>

datatype error = SuccessResult | Canceled | DeadlineExceeded | ErrorString string

text \<open>The method \<^verbatim>\<open>Error()\<close>; for \<^verbatim>\<open>SuccessResult\<close> the source returns the empty string.\<close>

fun Error :: "error \<Rightarrow> string" where
  "Error SuccessResult = ''''"
| "Error Canceled = ''context canceled''"
| "Error DeadlineExceeded = ''context deadline exceeded''"
| "Error (ErrorString s) = s"

text \<open>
  A recovered panic value has type \<^verbatim>\<open>interface{}\<close>: a value that satisfies \<^verbatim>\<open>error\<close>,
  or a value of another dynamic type (strings, booleans and integers here).
\<close>

datatype any = AnyError error | AnyString string | AnyBool bool | AnyInt int

definition digit :: "nat \<Rightarrow> char" where
  "digit d = ''0123456789'' ! d"

fun decimal :: "nat \<Rightarrow> string" where
  "decimal n =
     (if n < 10 then [digit n]
      else decimal (n div 10) @ [digit (n mod 10)])"

declare decimal.simps [simp del]

text \<open>The verb \<^verbatim>\<open>%v\<close> of package \<^verbatim>\<open>fmt\<close> on these dynamic types.\<close>

fun fmt_v :: "any \<Rightarrow> string" where
  "fmt_v (AnyError e) = Error e"
| "fmt_v (AnyString s) = s"
| "fmt_v (AnyBool b) = (if b then ''true'' else ''false'')"
| "fmt_v (AnyInt i) = (if i < 0 then ''-'' @ decimal (nat (- i)) else decimal (nat i))"

text \<open>\<^verbatim>\<open>makeErrorFromPanic\<close> of helper.go.\<close>

fun makeErrorFromPanic :: "any \<Rightarrow> error" where
  "makeErrorFromPanic (AnyError err) = err"
| "makeErrorFromPanic r = ErrorString (fmt_v r)"

section \<open>Cancellation contexts\<close>

text \<open>
  The package consumes \<^verbatim>\<open>context.WithCancelCause\<close>. What it observes of a context is its
  cause slot: empty (\<open>None\<close>) while \<^verbatim>\<open>Done()\<close> is open, and the cause once the context is
  canceled. The first cancellation wins, a \<^verbatim>\<open>nil\<close> cause is stored as
  \<^verbatim>\<open>context.Canceled\<close>, and a canceled parent cancels its children with its own cause.
\<close>

type_synonym ctx = "error option"

definition cancel :: "error option \<Rightarrow> ctx \<Rightarrow> ctx" where
  "cancel cause c =
     (case c of
        Some committed \<Rightarrow> Some committed
      | None \<Rightarrow> (case cause of None \<Rightarrow> Some Canceled | Some e \<Rightarrow> Some e))"

definition propagate :: "ctx \<Rightarrow> ctx \<Rightarrow> ctx" where
  "propagate parent child =
     (case parent of None \<Rightarrow> child | Some cause \<Rightarrow> cancel (Some cause) child)"

definition WithCancelCause :: "ctx \<Rightarrow> ctx" where
  "WithCancelCause parent = propagate parent None"

section \<open>Wait\<close>

text \<open>
  \<^verbatim>\<open>Goture.Wait\<close> blocks on \<^verbatim>\<open>Done()\<close>, reads the cause, and returns \<^verbatim>\<open>nil\<close> when the
  cause is a \<^verbatim>\<open>SuccessResult\<close>, the cause otherwise.
\<close>

datatype wait_result = Blocked | Returned "error option"

definition Wait :: "ctx \<Rightarrow> wait_result" where
  "Wait c =
     (case c of
        None \<Rightarrow> Blocked
      | Some cause \<Rightarrow> (if cause = SuccessResult then Returned None else Returned (Some cause)))"

section \<open>Tasks and the panic boundary\<close>

text \<open>
  The body of a task is the caller's. A task that ends either returns an \<^verbatim>\<open>error\<close> or
  panics with a value; what it does may depend on the context it was handed, so a task is
  a function of the cause slot it observes.
\<close>

datatype outcome = Returns "error option" | Panics any

type_synonym Task = "ctx \<Rightarrow> outcome"

text \<open>
  \<^verbatim>\<open>recover()\<close> in a deferred call yields the panic in flight (\<open>None\<close> when the goroutine
  is not panicking) and stops it: the second component is the panic still in flight
  afterwards.
\<close>

definition recover :: "any option \<Rightarrow> any option \<times> any option" where
  "recover panicking = (panicking, None)"

text \<open>
  \<^verbatim>\<open>recoverCancel\<close>: the causes it hands to \<^verbatim>\<open>cancel\<close>, in order, and the panic still
  in flight when it returns.
\<close>

definition recoverCancel :: "any option \<Rightarrow> error option list \<times> any option" where
  "recoverCancel panicking =
     (case recover panicking of
        (None, p) \<Rightarrow> ([], p)
      | (Some (AnyError err), p) \<Rightarrow> ([Some err], p)
      | (Some r, p) \<Rightarrow> ([Some (ErrorString (fmt_v r))], p))"

text \<open>
  \<^verbatim>\<open>recoverCancelForParallel\<close>: the values it sends on the channel, in order, and the
  panic still in flight when it returns.
\<close>

definition recoverCancelForParallel :: "any option \<Rightarrow> error option list \<times> any option" where
  "recoverCancelForParallel panicking =
     (case recover panicking of
        (None, p) \<Rightarrow> ([], p)
      | (Some (AnyError err), p) \<Rightarrow> ([Some err], p)
      | (Some r, p) \<Rightarrow> ([Some (ErrorString (fmt_v r))], p))"

section \<open>NewGoture\<close>

text \<open>
  The goroutine of \<^verbatim>\<open>NewGoture\<close>: it runs the task on the child context, calls
  \<^verbatim>\<open>cancel\<close> with the returned error or with \<^verbatim>\<open>SuccessResult{}\<close>, and then (or at
  once, when the task panics) runs the deferred \<^verbatim>\<open>recoverCancel\<close>. The result is the list
  of causes handed to \<^verbatim>\<open>cancel\<close>, in order, and the panic that leaves the goroutine
  (which would end the process).
\<close>

definition goture_body :: "Task \<Rightarrow> ctx \<Rightarrow> error option list \<times> any option" where
  "goture_body fn localCtx =
     (case fn localCtx of
        Returns err \<Rightarrow>
          (case recoverCancel None of
             (calls, p) \<Rightarrow> ((if err \<noteq> None then [err] else [Some SuccessResult]) @ calls, p))
      | Panics r \<Rightarrow> recoverCancel (Some r))"

record gstate =
  g_parent :: ctx
  g_ctx :: ctx
  g_running :: bool
  g_escaped :: "any option"

definition NewGoture :: "ctx \<Rightarrow> Task \<Rightarrow> gstate" where
  "NewGoture parent fn =
     \<lparr>g_parent = parent, g_ctx = WithCancelCause parent, g_running = True, g_escaped = None\<rparr>"

text \<open>
  What can happen to a single-task future: its goroutine finishes (the task ends and the
  \<^verbatim>\<open>cancel\<close> calls are made), or the caller's parent context is canceled with a cause.
\<close>

datatype gevent = GFinish | GCancelParent error

fun gstep :: "Task \<Rightarrow> gevent \<Rightarrow> gstate \<Rightarrow> gstate option" where
  "gstep fn GFinish s =
     (if g_running s then
        (case goture_body fn (g_ctx s) of
           (calls, p) \<Rightarrow>
             Some (s\<lparr>g_ctx := fold cancel calls (g_ctx s), g_running := False, g_escaped := p\<rparr>))
      else None)"
| "gstep fn (GCancelParent cause) s =
     (let parent' = cancel (Some cause) (g_parent s)
      in Some (s\<lparr>g_parent := parent', g_ctx := propagate parent' (g_ctx s)\<rparr>))"

fun gexec :: "Task \<Rightarrow> gevent list \<Rightarrow> gstate \<Rightarrow> gstate option" where
  "gexec fn [] s = Some s"
| "gexec fn (ev # evs) s =
     (case gstep fn ev s of None \<Rightarrow> None | Some s' \<Rightarrow> gexec fn evs s')"

section \<open>NewParallelGoture\<close>

text \<open>
  The goroutine of one task: \<^verbatim>\<open>completed <- task(localCtx)\<close> under the deferred
  \<^verbatim>\<open>recoverCancelForParallel(completed)\<close>. The result is the list of values it sends on
  the channel, in order, and the panic that leaves the goroutine.
\<close>

definition parallel_body :: "Task \<Rightarrow> ctx \<Rightarrow> error option list \<times> any option" where
  "parallel_body task localCtx =
     (case task localCtx of
        Returns err \<Rightarrow>
          (case recoverCancelForParallel None of (sends, p) \<Rightarrow> ([err] @ sends, p))
      | Panics r \<Rightarrow> recoverCancelForParallel (Some r))"

text \<open>
  A task's goroutine is running its task, or has ended its task and holds the values it
  still has to send and those it has sent.
\<close>

datatype unit_pc = Running | Reporting "error option list" "error option list"

text \<open>
  Who is to call \<^verbatim>\<open>cancel\<close> on the child context. For an empty task list it is the
  constructor itself: \<open>Constructor\<close> is the constructor between its two statements,
  \<^verbatim>\<open>WithCancelCause(parentCtx)\<close> done and \<^verbatim>\<open>cancel(SuccessResult{})\<close> still to come,
  and \<open>NoCoordinator\<close> the future it has returned after that call. Otherwise it is the
  coordinating goroutine: in its loop with counter \<open>i\<close> and \<open>firstError\<close>, or past its
  \<^verbatim>\<open>cancel\<close> call with the \<open>firstError\<close> it had.
\<close>

datatype coord =
  Constructor | NoCoordinator | Loop nat "error option" | Exited "error option"

record pstate =
  parentCtx :: ctx
  localCtx :: ctx
  units :: "unit_pc list"
  completed :: "error option list"
  capacity :: nat
  coordinator :: coord
  arrivals :: "error option list"
  crashed :: bool

text \<open>
  The state right after \<^verbatim>\<open>WithCancelCause(parentCtx)\<close>. In the branch for an empty task
  list the constructor has its \<^verbatim>\<open>cancel(SuccessResult{})\<close> still to make (the event
  \<open>Commit\<close> below), and the parent can be canceled in between; in the other branch the
  goroutines are started and the constructor returns.
\<close>

definition NewParallelGoture :: "ctx \<Rightarrow> Task list \<Rightarrow> pstate" where
  "NewParallelGoture parent tasks =
     (if length tasks = 0 then
        \<lparr>parentCtx = parent,
         localCtx = WithCancelCause parent,
         units = [], completed = [], capacity = 0,
         coordinator = Constructor, arrivals = [], crashed = False\<rparr>
      else
        \<lparr>parentCtx = parent,
         localCtx = WithCancelCause parent,
         units = map (\<lambda>fn. Running) tasks, completed = [], capacity = length tasks,
         coordinator = Loop 0 None, arrivals = [], crashed = False\<rparr>)"

text \<open>
  The events of a parallel future: the task of unit \<open>k\<close> ends; unit \<open>k\<close> sends its next
  value (possible only while the channel has room); the coordinator receives one value
  (possible only while the channel is not empty and \<open>i < len(tasks)\<close>); the library
  makes its \<^verbatim>\<open>cancel\<close> call (the coordinator on leaving its loop, or the constructor
  for an empty task list, which then returns); the caller's parent context is canceled.
  \<open>arrivals\<close> records the values received, in order. A run is a list of events, each
  possible in the state it meets; a task that never ends is a unit whose \<open>Finish\<close> does
  not occur in the run.
\<close>

datatype event = Finish nat | Send nat | Recv | Commit | CancelParent error

fun pstep :: "Task list \<Rightarrow> event \<Rightarrow> pstate \<Rightarrow> pstate option" where
  "pstep tasks (Finish k) s =
     (if k < length tasks \<and> k < length (units s) \<and> units s ! k = Running then
        (case parallel_body (tasks ! k) (localCtx s) of
           (sends, p) \<Rightarrow>
             Some (s\<lparr>units := (units s)[k := Reporting sends []],
                     crashed := (crashed s \<or> p \<noteq> None)\<rparr>))
      else None)"
| "pstep tasks (Send k) s =
     (if k < length (units s) then
        (case units s ! k of
           Reporting (v # vs) sent \<Rightarrow>
             (if length (completed s) < capacity s then
                Some (s\<lparr>units := (units s)[k := Reporting vs (sent @ [v])],
                        completed := completed s @ [v]\<rparr>)
              else None)
         | _ \<Rightarrow> None)
      else None)"
| "pstep tasks Recv s =
     (case coordinator s of
        Loop i firstError \<Rightarrow>
          (if i < length tasks then
             (case completed s of
                [] \<Rightarrow> None
              | err # rest \<Rightarrow>
                  Some (s\<lparr>completed := rest,
                          coordinator :=
                            Loop (i + 1)
                              (if err \<noteq> None \<and> firstError = None then err else firstError),
                          arrivals := arrivals s @ [err]\<rparr>))
           else None)
      | _ \<Rightarrow> None)"
| "pstep tasks Commit s =
     (case coordinator s of
        Constructor \<Rightarrow>
          Some (s\<lparr>localCtx := cancel (Some SuccessResult) (localCtx s),
                  coordinator := NoCoordinator\<rparr>)
      | Loop i firstError \<Rightarrow>
          (if i < length tasks then None
           else
             Some (s\<lparr>localCtx :=
                       (if firstError \<noteq> None then cancel firstError (localCtx s)
                        else cancel (Some SuccessResult) (localCtx s)),
                     coordinator := Exited firstError\<rparr>))
      | _ \<Rightarrow> None)"
| "pstep tasks (CancelParent cause) s =
     (let parent' = cancel (Some cause) (parentCtx s)
      in Some (s\<lparr>parentCtx := parent', localCtx := propagate parent' (localCtx s)\<rparr>))"

fun pexec :: "Task list \<Rightarrow> event list \<Rightarrow> pstate \<Rightarrow> pstate option" where
  "pexec tasks [] s = Some s"
| "pexec tasks (ev # evs) s =
     (case pstep tasks ev s of None \<Rightarrow> None | Some s' \<Rightarrow> pexec tasks evs s')"

section \<open>The parallel future that carries results\<close>

text \<open>
  Modelled from the spec: the constructor \<^verbatim>\<open>NewParallelWithResult\<close> (the spec's
  \<^verbatim>\<open>NewParallelFutureWithResult\<close>) and the \<^verbatim>\<open>Wait\<close> of its future are not among the
  sources. By the spec a task returns a value and an error, the future keeps everything
  of the plain parallel future (immediate start, panic boundary, first reported error),
  the returned sequence has one slot per task at the task's submission index, a slot not
  written keeps the default value, and \<^verbatim>\<open>Wait\<close> returns the sequence together with the
  error.
\<close>

datatype 'a outcomeR = ReturnsR 'a "error option" | PanicsR any

type_synonym 'a TaskWithResult = "ctx \<Rightarrow> 'a outcomeR"

definition plain :: "'a TaskWithResult \<Rightarrow> Task" where
  "plain task c = (case task c of ReturnsR v err \<Rightarrow> Returns err | PanicsR r \<Rightarrow> Panics r)"

definition NewParallelWithResult ::
  "'a \<Rightarrow> ctx \<Rightarrow> 'a TaskWithResult list \<Rightarrow> pstate \<times> 'a list" where
  "NewParallelWithResult zero parent tasks =
     (NewParallelGoture parent (map plain tasks), replicate (length tasks) zero)"

fun store :: "'a TaskWithResult list \<Rightarrow> event \<Rightarrow> pstate \<Rightarrow> 'a list \<Rightarrow> 'a list" where
  "store tasks (Finish k) s results =
     (case (tasks ! k) (localCtx s) of
        ReturnsR v err \<Rightarrow> results[k := v]
      | PanicsR r \<Rightarrow> results)"
| "store tasks ev s results = results"

fun rstep ::
  "'a TaskWithResult list \<Rightarrow> event \<Rightarrow> pstate \<times> 'a list \<Rightarrow> (pstate \<times> 'a list) option" where
  "rstep tasks ev (s, results) =
     (case pstep (map plain tasks) ev s of
        None \<Rightarrow> None
      | Some s' \<Rightarrow> Some (s', store tasks ev s results))"

fun rexec ::
  "'a TaskWithResult list \<Rightarrow> event list \<Rightarrow> pstate \<times> 'a list \<Rightarrow> (pstate \<times> 'a list) option" where
  "rexec tasks [] sr = Some sr"
| "rexec tasks (ev # evs) sr =
     (case rstep tasks ev sr of None \<Rightarrow> None | Some sr' \<Rightarrow> rexec tasks evs sr')"

datatype 'a wait_resultR = BlockedR | ReturnedR 'a "error option"

fun WaitR :: "pstate \<times> 'a list \<Rightarrow> 'a list wait_resultR" where
  "WaitR (s, results) =
     (case Wait (localCtx s) of
        Blocked \<Rightarrow> BlockedR
      | Returned err \<Rightarrow> ReturnedR results err)"

section \<open>Notions used to state the properties\<close>

text \<open>The first non-nil error of a sequence of reports, in the order of the sequence.\<close>

fun first_error :: "error option list \<Rightarrow> error option" where
  "first_error [] = None"
| "first_error (e # es) = (if e \<noteq> None then e else first_error es)"

text \<open>The cause the coordinator hands to \<^verbatim>\<open>cancel\<close> for a given \<open>firstError\<close>.\<close>

definition commit_cause :: "error option \<Rightarrow> error" where
  "commit_cause firstError = (case firstError of None \<Rightarrow> SuccessResult | Some e \<Rightarrow> e)"

text \<open>The one value a task's goroutine reports when the task ends on context \<open>c\<close>.\<close>

definition report :: "Task \<Rightarrow> ctx \<Rightarrow> error option" where
  "report task c =
     (case task c of Returns err \<Rightarrow> err | Panics r \<Rightarrow> Some (makeErrorFromPanic r))"

fun sent_of :: "unit_pc \<Rightarrow> error option list" where
  "sent_of Running = []"
| "sent_of (Reporting pending sent) = sent"

fun pending_of :: "unit_pc \<Rightarrow> error option list" where
  "pending_of Running = []"
| "pending_of (Reporting pending sent) = pending"

definition sent_count :: "unit_pc \<Rightarrow> nat" where
  "sent_count u = length (sent_of u)"

definition total_sent :: "pstate \<Rightarrow> nat" where
  "total_sent s = sum_list (map sent_count (units s))"

text \<open>A unit has reported when its task has ended and nothing is left for it to send.\<close>

fun reported :: "unit_pc \<Rightarrow> bool" where
  "reported Running = False"
| "reported (Reporting pending sent) = (pending = [])"

text \<open>
  The invariant of a parallel future with at least one task. Each goroutine that has
  ended its task has, between what it sent and what it still has to send, exactly the one
  report of its task; the values sent are those received and those in the channel; the
  coordinator's counter and \<open>firstError\<close> follow the values received; and the child
  context carries the parent's cause until the coordinator's \<^verbatim>\<open>cancel\<close> call.
\<close>

fun unit_ok :: "Task \<Rightarrow> unit_pc \<Rightarrow> bool" where
  "unit_ok task Running = True"
| "unit_ok task (Reporting pending sent) = (\<exists>c. sent @ pending = [report task c])"

definition coord_ok :: "nat \<Rightarrow> pstate \<Rightarrow> bool" where
  "coord_ok N s =
     (case coordinator s of
        Constructor \<Rightarrow> False
      | NoCoordinator \<Rightarrow> False
      | Loop i firstError \<Rightarrow>
          i = length (arrivals s) \<and> i \<le> N \<and> firstError = first_error (arrivals s) \<and>
          localCtx s = parentCtx s
      | Exited firstError \<Rightarrow>
          length (arrivals s) = N \<and> firstError = first_error (arrivals s) \<and>
          (localCtx s = Some (commit_cause firstError) \<or>
           (localCtx s = parentCtx s \<and> parentCtx s \<noteq> None)))"

definition pinv :: "Task list \<Rightarrow> pstate \<Rightarrow> bool" where
  "pinv tasks s \<longleftrightarrow>
     length (units s) = length tasks \<and> capacity s = length tasks \<and>
     (\<forall>k < length tasks. unit_ok (tasks ! k) (units s ! k)) \<and>
     total_sent s = length (completed s) + length (arrivals s) \<and>
     mset (concat (map sent_of (units s))) = mset (arrivals s @ completed s) \<and>
     coord_ok (length tasks) s"

text \<open>A unit all of whose values, sent and still to send, are \<^verbatim>\<open>nil\<close>.\<close>

definition results_nil :: "unit_pc \<Rightarrow> bool" where
  "results_nil u \<longleftrightarrow> list_all (\<lambda>v. v = None) (pending_of u @ sent_of u)"

text \<open>
  The invariant of a parallel future with no task: there is no goroutine, and the child
  context carries the parent's cause until the constructor's \<^verbatim>\<open>cancel\<close> call.
\<close>

definition zinv :: "pstate \<Rightarrow> bool" where
  "zinv s \<longleftrightarrow>
     units s = [] \<and>
     (case coordinator s of
        Constructor \<Rightarrow> localCtx s = parentCtx s
      | NoCoordinator \<Rightarrow>
          localCtx s = Some SuccessResult \<or>
          (localCtx s = parentCtx s \<and> parentCtx s \<noteq> None)
      | Loop i firstError \<Rightarrow> False
      | Exited firstError \<Rightarrow> False)"

text \<open>
  What is left to do before the coordinator is past its \<^verbatim>\<open>cancel\<close> call: a running
  task weighs three, a value still to send two, a value in the channel one, and the
  \<^verbatim>\<open>cancel\<close> call still to make one.
\<close>

fun unit_weight :: "unit_pc \<Rightarrow> nat" where
  "unit_weight Running = 3"
| "unit_weight (Reporting pending sent) = 2 * length pending"

fun coord_weight :: "coord \<Rightarrow> nat" where
  "coord_weight (Loop i firstError) = 1"
| "coord_weight Constructor = 1"
| "coord_weight c = 0"

definition remaining :: "pstate \<Rightarrow> nat" where
  "remaining s =
     sum_list (map unit_weight (units s)) + length (completed s) + coord_weight (coordinator s)"

section \<open>Contexts and Wait\<close>

lemma cancel_Some [simp]: "cancel x (Some c) = Some c"
  by (simp add: cancel_def)

lemma cancel_None [simp]: "cancel (Some e) None = Some e"
  by (simp add: cancel_def)

lemma propagate_None [simp]: "propagate None c = c"
  by (simp add: propagate_def)

lemma propagate_Some [simp]:
  "propagate (Some e) c = (case c of None \<Rightarrow> Some e | Some d \<Rightarrow> Some d)"
  by (simp add: propagate_def split: option.splits)

lemma WithCancelCause_parent [simp]: "WithCancelCause p = p"
  by (cases p) (simp_all add: WithCancelCause_def)

lemma Wait_Some: "Wait (Some c) = Returned (if c = SuccessResult then None else Some c)"
  by (simp add: Wait_def)

lemma Wait_None [simp]: "Wait None = Blocked"
  by (simp add: Wait_def)

section \<open>The invariant of the parallel future\<close>

lemma first_error_snoc:
  "first_error (xs @ [e]) = (if first_error xs \<noteq> None then first_error xs else e)"
  by (induction xs) auto

lemma parallel_body_report: "parallel_body task c = ([report task c], None)"
proof (cases "task c")
  case (Returns err)
  then show ?thesis
    by (simp add: parallel_body_def report_def recoverCancelForParallel_def recover_def)
next
  case (Panics r)
  then show ?thesis
    by (cases r) (simp_all add: parallel_body_def report_def recoverCancelForParallel_def recover_def)
qed

lemma sum_list_map_update:
  fixes f :: "'a \<Rightarrow> nat"
  assumes "k < length xs"
  shows "sum_list (map f (xs[k := y])) + f (xs ! k) = sum_list (map f xs) + f y"
  using assms
proof (induction xs arbitrary: k)
  case Nil
  then show ?case by simp
next
  case (Cons x xs)
  then show ?case by (cases k) auto
qed

lemma mset_concat_update:
  assumes "k < length us" "sent_of (us ! k) = snt" "sent_of u = snt @ [v]"
  shows "mset (concat (map sent_of (us[k := u]))) = mset (concat (map sent_of us)) + {#v#}"
  using assms
proof (induction us arbitrary: k)
  case Nil
  then show ?case by simp
next
  case (Cons a us)
  then show ?case by (cases k) auto
qed

lemma mset_concat_same:
  assumes "k < length us" "sent_of u = sent_of (us ! k)"
  shows "concat (map sent_of (us[k := u])) = concat (map sent_of us)"
  using assms
proof (induction us arbitrary: k)
  case Nil
  then show ?case by simp
next
  case (Cons a us)
  then show ?case by (cases k) auto
qed

lemma coord_ok_units [simp]: "coord_ok N (s\<lparr>units := us\<rparr>) = coord_ok N s"
  by (simp add: coord_ok_def split: coord.splits)

lemma coord_ok_completed [simp]: "coord_ok N (s\<lparr>completed := b\<rparr>) = coord_ok N s"
  by (simp add: coord_ok_def split: coord.splits)

lemma pinv_init: "tasks \<noteq> [] \<Longrightarrow> pinv tasks (NewParallelGoture p tasks)"
  by (simp add: pinv_def NewParallelGoture_def coord_ok_def total_sent_def sent_count_def
      comp_def)

lemma pinv_Finish:
  assumes "pinv tasks s" "pstep tasks (Finish k) s = Some s'"
  shows "pinv tasks s'"
proof -
  from assms(2) have k: "k < length (units s)" and kt: "k < length tasks"
    and r: "units s ! k = Running"
    by (auto split: if_splits)
  let ?u = "Reporting [report (tasks ! k) (localCtx s)] []"
  from assms(2) k kt r have s': "s' = s\<lparr>units := (units s)[k := ?u]\<rparr>"
    by (auto simp: parallel_body_report split: if_splits)
  have sum: "sum_list (map sent_count ((units s)[k := ?u])) = sum_list (map sent_count (units s))"
    using sum_list_map_update[OF k, of sent_count ?u] r by (simp add: sent_count_def)
  have ms: "concat (map sent_of ((units s)[k := ?u])) = concat (map sent_of (units s))"
    using mset_concat_same[OF k, of ?u] r by simp
  have ok: "unit_ok (tasks ! j) ((units s)[k := ?u] ! j)" if "j < length tasks" for j
  proof (cases "j = k")
    case True
    then show ?thesis using k by auto
  next
    case False
    then show ?thesis using assms(1) that by (simp add: pinv_def)
  qed
  from assms(1) sum ms ok show ?thesis
    unfolding s' pinv_def by (simp add: total_sent_def)
qed

lemma pinv_Send:
  assumes "pinv tasks s" "pstep tasks (Send k) s = Some s'"
  shows "pinv tasks s'"
proof -
  from assms(2) obtain v vs snt where k: "k < length (units s)"
    and r: "units s ! k = Reporting (v # vs) snt"
    and s': "s' = s\<lparr>units := (units s)[k := Reporting vs (snt @ [v])], completed := completed s @ [v]\<rparr>"
    by (auto split: if_splits unit_pc.splits list.splits)
  let ?u = "Reporting vs (snt @ [v])"
  have kt: "k < length tasks" using assms(1) k by (simp add: pinv_def)
  have "unit_ok (tasks ! k) (units s ! k)"
    using assms(1) kt by (simp add: pinv_def)
  then have uk: "unit_ok (tasks ! k) ?u" using r by simp
  have ok: "unit_ok (tasks ! j) ((units s)[k := ?u] ! j)" if "j < length tasks" for j
  proof (cases "j = k")
    case True
    then show ?thesis using k uk by simp
  next
    case False
    then show ?thesis using assms(1) that by (simp add: pinv_def)
  qed
  have sum: "sum_list (map sent_count ((units s)[k := ?u])) = sum_list (map sent_count (units s)) + 1"
    using sum_list_map_update[OF k, of sent_count ?u] r by (simp add: sent_count_def)
  have ms: "mset (concat (map sent_of ((units s)[k := ?u]))) = mset (concat (map sent_of (units s))) + {#v#}"
    using mset_concat_update[OF k, of snt ?u v] r by simp
  from assms(1) sum ms ok show ?thesis
    unfolding s' pinv_def by (simp add: total_sent_def)
qed

lemma pinv_Recv:
  assumes "pinv tasks s" "pstep tasks Recv s = Some s'"
  shows "pinv tasks s'"
  using assms
  by (auto simp: pinv_def coord_ok_def total_sent_def first_error_snoc
      split: coord.splits if_splits list.splits)

lemma pinv_Commit:
  assumes "pinv tasks s" "pstep tasks Commit s = Some s'"
  shows "pinv tasks s'"
  using assms
  by (auto simp: pinv_def coord_ok_def total_sent_def commit_cause_def cancel_def
      split: coord.splits if_splits option.splits)

lemma pinv_CancelParent:
  assumes "pinv tasks s" "pstep tasks (CancelParent c) s = Some s'"
  shows "pinv tasks s'"
  using assms
  by (auto simp: pinv_def coord_ok_def total_sent_def Let_def cancel_def
      split: coord.splits if_splits option.splits)

lemma pinv_step:
  "pinv tasks s \<Longrightarrow> pstep tasks ev s = Some s' \<Longrightarrow> pinv tasks s'"
  by (cases ev) (blast intro: pinv_Finish pinv_Send pinv_Recv pinv_Commit pinv_CancelParent)+

lemma pinv_exec:
  "pinv tasks s \<Longrightarrow> pexec tasks evs s = Some s' \<Longrightarrow> pinv tasks s'"
  by (induction evs arbitrary: s) (auto split: option.splits dest: pinv_step)

lemma pinv_reachable:
  "tasks \<noteq> [] \<Longrightarrow> pexec tasks evs (NewParallelGoture p tasks) = Some s \<Longrightarrow> pinv tasks s"
  using pinv_init pinv_exec by blast

section \<open>Counting the sends\<close>

lemma sum_list_le_length:
  fixes f :: "'a \<Rightarrow> nat"
  shows "(\<And>k. k < length xs \<Longrightarrow> f (xs ! k) \<le> 1) \<Longrightarrow> sum_list (map f xs) \<le> length xs"
proof (induction xs)
  case Nil
  then show ?case by simp
next
  case (Cons x xs)
  have "f x \<le> 1" using Cons.prems[of 0] by simp
  moreover have "sum_list (map f xs) \<le> length xs"
    using Cons.IH Cons.prems[of "Suc k" for k] by simp
  ultimately show ?case by simp
qed

lemma sum_list_less_length:
  fixes f :: "'a \<Rightarrow> nat"
  assumes "\<And>k. k < length xs \<Longrightarrow> f (xs ! k) \<le> 1" "j < length xs" "f (xs ! j) = 0"
  shows "sum_list (map f xs) < length xs"
  using assms
proof (induction xs arbitrary: j)
  case Nil
  then show ?case by simp
next
  case (Cons x xs)
  have tl: "sum_list (map f xs) \<le> length xs"
    using sum_list_le_length[of xs f] Cons.prems(1)[of "Suc k" for k] by simp
  show ?case
  proof (cases j)
    case 0
    then show ?thesis using Cons.prems(3) tl by simp
  next
    case (Suc i)
    have "f x \<le> 1" using Cons.prems(1)[of 0] by simp
    moreover have "sum_list (map f xs) < length xs"
      using Cons.IH[of i] Cons.prems Suc by force
    ultimately show ?thesis by simp
  qed
qed

lemma unit_ok_sent_count: "unit_ok task u \<Longrightarrow> sent_count u \<le> 1"
  by (cases u) (auto simp: sent_count_def append_eq_Cons_conv)

lemma unit_ok_cases:
  assumes "unit_ok task u"
  shows "u = Running \<or> (\<exists>c. u = Reporting [report task c] []) \<or> (\<exists>c. u = Reporting [] [report task c])"
  using assms by (cases u) (auto simp: append_eq_Cons_conv)

lemma pinv_sent_le:
  assumes "pinv tasks s"
  shows "total_sent s \<le> length tasks"
proof -
  have "sum_list (map sent_count (units s)) \<le> length (units s)"
  proof (rule sum_list_le_length)
    fix k assume "k < length (units s)"
    then show "sent_count (units s ! k) \<le> 1"
      using assms unit_ok_sent_count[of "tasks ! k" "units s ! k"] by (simp add: pinv_def)
  qed
  then show ?thesis using assms by (simp add: pinv_def total_sent_def)
qed

lemma pinv_sent_less:
  assumes "pinv tasks s" "j < length tasks" "sent_count (units s ! j) = 0"
  shows "total_sent s < length tasks"
proof -
  have "sum_list (map sent_count (units s)) < length (units s)"
  proof (rule sum_list_less_length[where j = j])
    fix k assume "k < length (units s)"
    then show "sent_count (units s ! k) \<le> 1"
      using assms(1) unit_ok_sent_count[of "tasks ! k" "units s ! k"] by (simp add: pinv_def)
  next
    show "j < length (units s)" using assms by (simp add: pinv_def)
  next
    show "sent_count (units s ! j) = 0" by (rule assms(3))
  qed
  then show ?thesis using assms by (simp add: pinv_def total_sent_def)
qed

text \<open>A pending send finds room in the channel.\<close>

lemma pinv_send_enabled:
  assumes "pinv tasks s" "k < length tasks" "units s ! k = Reporting (v # vs) snt"
  shows "pstep tasks (Send k) s \<noteq> None"
proof -
  have "unit_ok (tasks ! k) (units s ! k)" using assms(1,2) by (simp add: pinv_def)
  then have "snt = []" using assms(3) by (auto simp: append_eq_Cons_conv)
  then have "sent_count (units s ! k) = 0" using assms(3) by (simp add: sent_count_def)
  then have "total_sent s < length tasks" using assms pinv_sent_less by blast
  then have "length (completed s) < capacity s" using assms(1) by (simp add: pinv_def)
  then show ?thesis using assms by (simp add: pinv_def)
qed

text \<open>Once the coordinator has received all reports, every unit has reported.\<close>

lemma pinv_all_reported:
  assumes "pinv tasks s" "length (arrivals s) = length tasks" "k < length tasks"
  shows "\<exists>c. units s ! k = Reporting [] [report (tasks ! k) c]"
proof -
  have "\<not> total_sent s < length tasks" using assms by (simp add: pinv_def)
  then have "sent_count (units s ! k) \<noteq> 0" using assms pinv_sent_less by blast
  moreover have "unit_ok (tasks ! k) (units s ! k)" using assms by (simp add: pinv_def)
  ultimately show ?thesis
    using unit_ok_cases[of "tasks ! k" "units s ! k"] by (auto simp: sent_count_def)
qed

lemma pinv_Exited_all_reported:
  assumes "pinv tasks s" "coordinator s = Exited fe" "k < length tasks"
  shows "\<exists>c. units s ! k = Reporting [] [report (tasks ! k) c]"
proof -
  have "length (arrivals s) = length tasks"
    using assms(1,2) by (simp add: pinv_def coord_ok_def)
  with assms(1) show ?thesis using assms(3) by (rule pinv_all_reported)
qed

lemma pinv_ctx_set:
  assumes "pinv tasks s" "localCtx s \<noteq> None" "parentCtx s = None"
  shows "\<exists>fe. coordinator s = Exited fe \<and> localCtx s = Some (commit_cause fe)"
  using assms by (auto simp: pinv_def coord_ok_def split: coord.splits)

section \<open>The single-task future\<close>

lemma propagate_child_Some [simp]: "propagate p (Some c) = Some c"
  by (cases p) simp_all

lemma recoverCancel_None: "recoverCancel None = ([], None)"
  by (simp add: recoverCancel_def recover_def)

lemma recoverCancel_Some: "recoverCancel (Some r) = ([Some (makeErrorFromPanic r)], None)"
  by (cases r) (simp_all add: recoverCancel_def recover_def)

lemma goture_body_Returns:
  "fn c = Returns err \<Longrightarrow>
   goture_body fn c = ([if err \<noteq> None then err else Some SuccessResult], None)"
  by (simp add: goture_body_def recoverCancel_None)

lemma goture_body_Panics:
  "fn c = Panics r \<Longrightarrow> goture_body fn c = ([Some (makeErrorFromPanic r)], None)"
  by (simp add: goture_body_def recoverCancel_Some)


lemma fold_cancel_Some: "fold cancel calls (Some c) = Some c"
  by (induction calls) simp_all

lemma gstep_ctx_stable:
  "g_ctx s = Some c \<Longrightarrow> gstep fn ev s = Some s' \<Longrightarrow> g_ctx s' = Some c"
  by (cases ev) (auto simp: fold_cancel_Some Let_def split: if_splits prod.splits)

lemma gexec_ctx_stable:
  "g_ctx s = Some c \<Longrightarrow> gexec fn evs s = Some s' \<Longrightarrow> g_ctx s' = Some c"
  by (induction evs arbitrary: s) (auto split: option.splits dest: gstep_ctx_stable)








section \<open>Stability of a committed cause\<close>

lemma pstep_ctx_stable:
  "localCtx s = Some c \<Longrightarrow> pstep tasks ev s = Some s' \<Longrightarrow> localCtx s' = Some c"
  by (cases ev)
    (auto simp: Let_def split: if_splits prod.splits unit_pc.splits list.splits coord.splits)

lemma pexec_ctx_stable:
  "localCtx s = Some c \<Longrightarrow> pexec tasks evs s = Some s' \<Longrightarrow> localCtx s' = Some c"
  by (induction evs arbitrary: s) (auto split: option.splits dest: pstep_ctx_stable)




lemma pstep_parent_stable:
  "parentCtx s = Some c \<Longrightarrow> pstep tasks ev s = Some s' \<Longrightarrow> parentCtx s' = Some c"
  by (cases ev)
    (auto simp: Let_def parallel_body_report
      split: if_splits unit_pc.splits list.splits coord.splits)

lemma pexec_parent_stable:
  "parentCtx s = Some c \<Longrightarrow> pexec tasks evs s = Some s' \<Longrightarrow> parentCtx s' = Some c"
  by (induction evs arbitrary: s) (auto split: option.splits dest: pstep_parent_stable)

text \<open>A parent that is not canceled at the end of a run was not canceled before.\<close>

lemma pexec_parent_live:
  assumes "pexec tasks evs s = Some s'" "parentCtx s' = None"
  shows "parentCtx s = None"
proof (cases "parentCtx s")
  case None
  then show ?thesis .
next
  case (Some c)
  then have "parentCtx s' = Some c" using assms(1) by (rule pexec_parent_stable)
  then show ?thesis using assms(2) by simp
qed

lemma pstep_Exited_stable:
  "coordinator s = Exited fe \<Longrightarrow> pstep tasks ev s = Some s' \<Longrightarrow> coordinator s' = Exited fe"
  by (cases ev)
    (auto simp: Let_def parallel_body_report
      split: if_splits unit_pc.splits list.splits)

lemma pexec_Exited_stable:
  "coordinator s = Exited fe \<Longrightarrow> pexec tasks evs s = Some s' \<Longrightarrow> coordinator s' = Exited fe"
  by (induction evs arbitrary: s) (auto split: option.splits dest: pstep_Exited_stable)

text \<open>
  The coordinator's \<^verbatim>\<open>cancel\<close> call under a parent that is not canceled: it commits
  the cause, and the cause stays.
\<close>

lemma pinv_Commit_live:
  assumes "pinv tasks s0" "parentCtx s0 = None" "pexec tasks (Commit # evs) s0 = Some s"
  shows "\<exists>fe. coordinator s = Exited fe \<and> localCtx s = Some (commit_cause fe)"
proof -
  from assms(3) obtain s1 where st: "pstep tasks Commit s0 = Some s1"
    and rest: "pexec tasks evs s1 = Some s"
    by (auto split: option.splits)
  from st assms(1) obtain i fe where l: "coordinator s0 = Loop i fe"
    by (cases "coordinator s0") (auto simp: pinv_def coord_ok_def)
  have "localCtx s0 = None" using assms(1,2) l by (simp add: pinv_def coord_ok_def)
  then have "coordinator s1 = Exited fe \<and> localCtx s1 = Some (commit_cause fe)"
    using st l by (cases fe) (auto simp: commit_cause_def split: if_splits)
  then have "coordinator s = Exited fe \<and> localCtx s = Some (commit_cause fe)"
    using rest pexec_Exited_stable pexec_ctx_stable by blast
  then show ?thesis by blast
qed

section \<open>The parallel future with no task\<close>

lemma zinv_init: "zinv (NewParallelGoture parent [])"
  by (simp add: zinv_def NewParallelGoture_def)

lemma zinv_step: "zinv s \<Longrightarrow> pstep [] ev s = Some s' \<Longrightarrow> zinv s'"
  by (cases ev)
    (auto simp: zinv_def Let_def cancel_def split: coord.splits if_splits option.splits)

lemma zinv_exec: "zinv s \<Longrightarrow> pexec [] evs s = Some s' \<Longrightarrow> zinv s'"
  by (induction evs arbitrary: s) (auto split: option.splits dest: zinv_step)

lemma zinv_reachable: "pexec [] evs (NewParallelGoture parent []) = Some s \<Longrightarrow> zinv s"
  using zinv_init zinv_exec by blast

lemma zinv_Commit_live:
  assumes "zinv s0" "parentCtx s0 = None" "pexec [] (Commit # evs) s0 = Some s"
  shows "localCtx s = Some SuccessResult \<and> units s = []"
proof -
  from assms(3) obtain s1 where st: "pstep [] Commit s0 = Some s1"
    and rest: "pexec [] evs s1 = Some s"
    by (auto split: option.splits)
  from st assms(1) have c: "coordinator s0 = Constructor"
    by (cases "coordinator s0") (auto simp: zinv_def)
  then have "localCtx s0 = None" using assms(1,2) by (simp add: zinv_def)
  then have "localCtx s1 = Some SuccessResult" using st c by auto
  then have "localCtx s = Some SuccessResult" using rest by (rule pexec_ctx_stable)
  moreover have "zinv s" using zinv_exec[OF zinv_step[OF assms(1) st] rest] .
  ultimately show ?thesis by (simp add: zinv_def)
qed

section \<open>When every task has reported\<close>

lemma sum_list_all_one:
  fixes f :: "'a \<Rightarrow> nat"
  shows "(\<And>k. k < length xs \<Longrightarrow> f (xs ! k) = 1) \<Longrightarrow> sum_list (map f xs) = length xs"
proof (induction xs)
  case Nil
  then show ?case by simp
next
  case (Cons x xs)
  have "f x = 1" using Cons.prems[of 0] by simp
  moreover have "sum_list (map f xs) = length xs"
    using Cons.IH Cons.prems[of "Suc k" for k] by simp
  ultimately show ?case by simp
qed

lemma pinv_unit_cases:
  assumes "pinv tasks s" "k < length tasks"
  shows "units s ! k = Running \<or>
         (\<exists>c. units s ! k = Reporting [report (tasks ! k) c] []) \<or>
         (\<exists>c. units s ! k = Reporting [] [report (tasks ! k) c])"
proof -
  have "unit_ok (tasks ! k) (units s ! k)" using assms by (simp add: pinv_def)
  then show ?thesis by (rule unit_ok_cases)
qed

lemma pinv_all_reported_sent:
  assumes "pinv tasks s" "\<And>k. k < length tasks \<Longrightarrow> reported (units s ! k)"
  shows "total_sent s = length tasks"
proof -
  have "sum_list (map sent_count (units s)) = length (units s)"
  proof (rule sum_list_all_one)
    fix k assume "k < length (units s)"
    then have k: "k < length tasks" using assms(1) by (simp add: pinv_def)
    from pinv_unit_cases[OF assms(1) k] assms(2)[OF k]
    show "sent_count (units s ! k) = 1" by (auto simp: sent_count_def)
  qed
  then show ?thesis using assms(1) by (simp add: pinv_def total_sent_def)
qed

section \<open>Every run can be completed\<close>

lemma remaining_Finish:
  assumes "pstep tasks (Finish k) s = Some s'"
  shows "remaining s' < remaining s \<and> parentCtx s' = parentCtx s"
proof -
  from assms have k: "k < length (units s)" and r: "units s ! k = Running"
    by (auto split: if_splits)
  let ?u = "Reporting [report (tasks ! k) (localCtx s)] []"
  from assms k r have s': "s' = s\<lparr>units := (units s)[k := ?u]\<rparr>"
    by (auto simp: parallel_body_report split: if_splits)
  have "sum_list (map unit_weight ((units s)[k := ?u])) + 3 = sum_list (map unit_weight (units s)) + 2"
    using sum_list_map_update[OF k, of unit_weight ?u] r by simp
  then show ?thesis unfolding s' by (simp add: remaining_def)
qed

lemma remaining_Send:
  assumes "pstep tasks (Send k) s = Some s'"
  shows "remaining s' < remaining s \<and> parentCtx s' = parentCtx s"
proof -
  from assms obtain v vs snt where k: "k < length (units s)"
    and r: "units s ! k = Reporting (v # vs) snt"
    and s': "s' = s\<lparr>units := (units s)[k := Reporting vs (snt @ [v])], completed := completed s @ [v]\<rparr>"
    by (auto split: if_splits unit_pc.splits list.splits)
  have "sum_list (map unit_weight ((units s)[k := Reporting vs (snt @ [v])])) + 2 * length (v # vs)
      = sum_list (map unit_weight (units s)) + 2 * length vs"
    using sum_list_map_update[OF k, of unit_weight "Reporting vs (snt @ [v])"] r by simp
  then show ?thesis unfolding s' by (simp add: remaining_def)
qed

lemma remaining_Recv:
  assumes "pstep tasks Recv s = Some s'"
  shows "remaining s' < remaining s \<and> parentCtx s' = parentCtx s"
  using assms
  by (auto simp: remaining_def split: coord.splits if_splits list.splits)

lemma remaining_Commit:
  assumes "pstep tasks Commit s = Some s'"
  shows "remaining s' < remaining s \<and> parentCtx s' = parentCtx s"
  using assms
  by (auto simp: remaining_def split: coord.splits if_splits)

text \<open>While the coordinator is in its loop, one of the goroutines can move.\<close>

lemma pinv_progress:
  assumes "pinv tasks s" "coordinator s = Loop i fe"
  shows "\<exists>ev s'. pstep tasks ev s = Some s' \<and> remaining s' < remaining s \<and>
           parentCtx s' = parentCtx s"
proof (cases "i < length tasks")
  case False
  then have "pstep tasks Commit s \<noteq> None" using assms(2) by simp
  then show ?thesis using remaining_Commit by blast
next
  case True
  show ?thesis
  proof (cases "completed s")
    case (Cons v rest)
    then have "pstep tasks Recv s \<noteq> None" using assms(2) True by simp
    then show ?thesis using remaining_Recv by blast
  next
    case Nil
    have i: "i = length (arrivals s)" using assms by (simp add: pinv_def coord_ok_def)
    have "total_sent s < length tasks"
      using assms(1) Nil i True by (simp add: pinv_def)
    then have "\<not> (\<forall>k < length tasks. reported (units s ! k))"
      using pinv_all_reported_sent[OF assms(1)] by auto
    then obtain k where k: "k < length tasks" and nr: "\<not> reported (units s ! k)" by blast
    from pinv_unit_cases[OF assms(1) k] nr
    consider "units s ! k = Running" | c where "units s ! k = Reporting [report (tasks ! k) c] []"
      by auto
    then show ?thesis
    proof cases
      case 1
      have "k < length (units s)" using assms(1) k by (simp add: pinv_def)
      then have "pstep tasks (Finish k) s \<noteq> None" using 1 k by (simp split: prod.splits)
      then show ?thesis using remaining_Finish by blast
    next
      case 2
      then have "pstep tasks (Send k) s \<noteq> None" using pinv_send_enabled[OF assms(1) k] by blast
      then show ?thesis using remaining_Send by blast
    qed
  qed
qed

lemma pexec_append:
  "pexec tasks (evs @ evs') s = (case pexec tasks evs s of None \<Rightarrow> None | Some s' \<Rightarrow> pexec tasks evs' s')"
  by (induction evs arbitrary: s) (auto split: option.splits)

lemma pinv_completes:
  assumes "pinv tasks s"
  shows "\<exists>evs s' fe. pexec tasks evs s = Some s' \<and> coordinator s' = Exited fe \<and>
           parentCtx s' = parentCtx s"
  using assms
proof (induction "remaining s" arbitrary: s rule: less_induct)
  case less
  show ?case
  proof (cases "coordinator s")
    case Constructor
    then show ?thesis using less.prems by (simp add: pinv_def coord_ok_def)
  next
    case NoCoordinator
    then show ?thesis using less.prems by (simp add: pinv_def coord_ok_def)
  next
    case (Exited fe)
    then have "pexec tasks [] s = Some s \<and> coordinator s = Exited fe \<and>
        parentCtx s = parentCtx s" by simp
    then show ?thesis by blast
  next
    case (Loop i fe)
    from pinv_progress[OF less.prems Loop] obtain ev s1
      where st: "pstep tasks ev s = Some s1" and lt: "remaining s1 < remaining s"
        and pc: "parentCtx s1 = parentCtx s" by blast
    have "pinv tasks s1" using less.prems st by (rule pinv_step)
    from less.hyps[OF lt this] obtain evs s' fe'
      where "pexec tasks evs s1 = Some s'" "coordinator s' = Exited fe'"
        "parentCtx s' = parentCtx s1" by blast
    then have "pexec tasks (ev # evs) s = Some s' \<and> coordinator s' = Exited fe' \<and>
        parentCtx s' = parentCtx s"
      using st pc by simp
    then show ?thesis by blast
  qed
qed

section \<open>The first error of a sequence of reports\<close>

lemma first_error_None: "first_error xs = None \<longleftrightarrow> (\<forall>x \<in> set xs. x = None)"
  by (induction xs) auto

lemma first_error_Some:
  "first_error xs = Some e \<Longrightarrow>
   \<exists>before after. xs = before @ Some e # after \<and> (\<forall>x \<in> set before. x = None)"
proof (induction xs)
  case Nil
  then show ?case by simp
next
  case (Cons x xs)
  show ?case
  proof (cases x)
    case None
    then have "first_error xs = Some e" using Cons.prems by simp
    from Cons.IH[OF this] obtain before after
      where "xs = before @ Some e # after" "\<forall>x \<in> set before. x = None" by blast
    then have "x # xs = (x # before) @ Some e # after \<and> (\<forall>y \<in> set (x # before). y = None)"
      using None by simp
    then show ?thesis by blast
  next
    case (Some a)
    then have "x # xs = [] @ Some e # xs \<and> (\<forall>y \<in> set []. y = None)"
      using Cons.prems by simp
    then show ?thesis by blast
  qed
qed

section \<open>Properties of the parallel future that carries results\<close>

lemma rexec_pexec:
  "rexec tasks evs (s, rs) = Some (s', rs') \<Longrightarrow> pexec (map plain tasks) evs s = Some s'"
proof (induction evs arbitrary: s rs)
  case Nil
  then show ?case by simp
next
  case (Cons ev evs)
  then show ?case by (auto split: option.splits)
qed

lemma pexec_rexec:
  "pexec (map plain tasks) evs s = Some s' \<Longrightarrow> \<exists>rs'. rexec tasks evs (s, rs) = Some (s', rs')"
proof (induction evs arbitrary: s rs)
  case Nil
  then show ?case by simp
next
  case (Cons ev evs)
  then show ?case by (auto split: option.splits)
qed

lemma rstep_Some:
  "rstep tasks ev (s, rs) = Some (s', rs') \<longleftrightarrow>
   pstep (map plain tasks) ev s = Some s' \<and> rs' = store tasks ev s rs"
  by (cases "pstep (map plain tasks) ev s") auto

lemma rexec_append:
  "rexec tasks (evs @ evs') sr =
     (case rexec tasks evs sr of None \<Rightarrow> None | Some sr' \<Rightarrow> rexec tasks evs' sr')"
  by (induction evs arbitrary: sr) (auto split: option.splits)

lemma store_length: "length (store tasks ev s rs) = length rs"
  by (cases ev) (auto split: outcomeR.splits)

lemma rexec_length:
  "rexec tasks evs (s, rs) = Some (s', rs') \<Longrightarrow> length rs' = length rs"
proof (induction evs arbitrary: s rs)
  case Nil
  then show ?case by simp
next
  case (Cons ev evs)
  from Cons.prems obtain s1 rs1 where st: "rstep tasks ev (s, rs) = Some (s1, rs1)"
    and rest: "rexec tasks evs (s1, rs1) = Some (s', rs')"
    by (auto split: option.splits)
  from st have "length rs1 = length rs" unfolding rstep_Some by (simp add: store_length)
  with Cons.IH[OF rest] show ?case by simp
qed

text \<open>Once no task is running any more, the slots are not written again.\<close>

lemma rstep_frozen:
  assumes "\<forall>k < length (units s). units s ! k \<noteq> Running"
    and "rstep tasks ev (s, rs) = Some (s', rs')"
  shows "rs' = rs \<and> (\<forall>k < length (units s'). units s' ! k \<noteq> Running)"
proof -
  from assms(2) have ps: "pstep (map plain tasks) ev s = Some s'"
    and rs': "rs' = store tasks ev s rs"
    unfolding rstep_Some by blast+
  show ?thesis
  proof (cases ev)
    case (Finish j)
    then show ?thesis using ps assms(1) by (auto split: if_splits)
  next
    case (Send j)
    then obtain v ws snt where s': "s' = s\<lparr>units := (units s)[j := Reporting ws (snt @ [v])],
        completed := completed s @ [v]\<rparr>"
      using ps by (auto split: if_splits unit_pc.splits list.splits)
    have "\<forall>k < length (units s'). units s' ! k \<noteq> Running"
    proof (intro allI impI)
      fix k assume "k < length (units s')"
      then have k: "k < length (units s)" using s' by simp
      show "units s' ! k \<noteq> Running"
      proof (cases "k = j")
        case True
        then show ?thesis using s' k by simp
      next
        case False
        then show ?thesis using s' k assms(1) by simp
      qed
    qed
    then show ?thesis using rs' Send by simp
  next
    case Recv
    then show ?thesis using ps rs' assms(1)
      by (auto split: coord.splits if_splits list.splits)
  next
    case Commit
    then show ?thesis using ps rs' assms(1)
      by (auto split: coord.splits if_splits)
  next
    case (CancelParent c)
    then show ?thesis using ps rs' assms(1) by (auto simp: Let_def)
  qed
qed

lemma rexec_frozen:
  "\<forall>k < length (units s). units s ! k \<noteq> Running \<Longrightarrow>
   rexec tasks evs (s, rs) = Some (s', rs') \<Longrightarrow> rs' = rs"
proof (induction evs arbitrary: s rs)
  case Nil
  then show ?case by simp
next
  case (Cons ev evs)
  from Cons.prems(2) obtain s1 rs1 where st: "rstep tasks ev (s, rs) = Some (s1, rs1)"
    and rest: "rexec tasks evs (s1, rs1) = Some (s', rs')"
    by (auto split: option.splits)
  from rstep_frozen[OF Cons.prems(1) st]
  have "rs1 = rs" and "\<forall>k < length (units s1). units s1 ! k \<noteq> Running" by blast+
  with Cons.IH[OF _ rest] show ?case by simp
qed

text \<open>
  While the parent is not canceled, a task that ends has observed a context that is not
  canceled; so when every task yields its value with a \<^verbatim>\<open>nil\<close> error on such a context,
  the slots of the tasks that have ended hold the tasks' values and all reports are
  \<^verbatim>\<open>nil\<close>.
\<close>

lemma rstep_results:
  assumes ok: "\<forall>k < length tasks. (tasks ! k) None = ReturnsR (vs ! k) None"
    and inv: "pinv (map plain tasks) s"
    and st: "rstep tasks ev (s, rs) = Some (s', rs')"
    and len: "length rs = length tasks"
    and res: "parentCtx s = None \<longrightarrow>
       (\<forall>k < length tasks. units s ! k \<noteq> Running \<longrightarrow>
          rs ! k = vs ! k \<and> results_nil (units s ! k))"
    and live: "parentCtx s' = None"
  shows "\<forall>k < length tasks. units s' ! k \<noteq> Running \<longrightarrow>
          rs' ! k = vs ! k \<and> results_nil (units s' ! k)"
proof -
  from st have ps: "pstep (map plain tasks) ev s = Some s'"
    and rs': "rs' = store tasks ev s rs"
    unfolding rstep_Some by blast+
  have "pexec (map plain tasks) [ev] s = Some s'" using ps by simp
  then have par: "parentCtx s = None" using live by (rule pexec_parent_live)
  with res have old: "\<forall>k < length tasks. units s ! k \<noteq> Running \<longrightarrow>
      rs ! k = vs ! k \<and> results_nil (units s ! k)" by simp
  show ?thesis
  proof (cases ev)
    case (Finish j)
    from ps Finish have j: "j < length tasks" and r: "units s ! j = Running"
      and s': "s' = s\<lparr>units := (units s)[j := Reporting [report (map plain tasks ! j) (localCtx s)] []]\<rparr>"
      by (auto simp: parallel_body_report split: if_splits)
    have "\<not> reported (units s ! j)" using r by simp
    then have "\<forall>fe. coordinator s \<noteq> Exited fe"
      using pinv_Exited_all_reported[OF inv, of _ j] j by auto
    then have "localCtx s = parentCtx s"
      using inv by (cases "coordinator s") (simp_all add: pinv_def coord_ok_def)
    then have ctx: "localCtx s = None" using par by simp
    then have v: "(tasks ! j) (localCtx s) = ReturnsR (vs ! j) None" using ok j by simp
    then have rs: "rs' = rs[j := vs ! j]" using rs' Finish by simp
    have rp: "report (map plain tasks ! j) (localCtx s) = None"
      using v j by (simp add: report_def plain_def)
    show ?thesis
    proof (intro allI impI)
      fix k assume k: "k < length tasks" and nr: "units s' ! k \<noteq> Running"
      show "rs' ! k = vs ! k \<and> results_nil (units s' ! k)"
      proof (cases "k = j")
        case True
        have "j < length (units s)" using inv j by (simp add: pinv_def)
        then show ?thesis using True rs len j s' rp by (simp add: results_nil_def)
      next
        case False
        then have "units s' ! k = units s ! k" using s' by simp
        then show ?thesis using old k nr rs False by simp
      qed
    qed
  next
    case (Send j)
    from ps Send obtain v ws snt where j: "j < length (units s)"
      and r: "units s ! j = Reporting (v # ws) snt"
      and s': "s' = s\<lparr>units := (units s)[j := Reporting ws (snt @ [v])], completed := completed s @ [v]\<rparr>"
      by (auto split: if_splits unit_pc.splits list.splits)
    have rs: "rs' = rs" using rs' Send by simp
    show ?thesis
    proof (intro allI impI)
      fix k assume k: "k < length tasks" and nr: "units s' ! k \<noteq> Running"
      show "rs' ! k = vs ! k \<and> results_nil (units s' ! k)"
      proof (cases "k = j")
        case True
        have "units s ! j \<noteq> Running" using r by simp
        then have "rs ! j = vs ! j \<and> results_nil (units s ! j)" using old k True by blast
        then show ?thesis using True r s' j rs by (auto simp: results_nil_def)
      next
        case False
        then have "units s' ! k = units s ! k" using s' by simp
        then show ?thesis using old k nr rs by simp
      qed
    qed
  next
    case Recv
    then have "units s' = units s" "rs' = rs" using ps rs'
      by (auto split: coord.splits if_splits list.splits)
    then show ?thesis using old by simp
  next
    case Commit
    then have "units s' = units s" "rs' = rs" using ps rs'
      by (auto split: coord.splits if_splits)
    then show ?thesis using old by simp
  next
    case (CancelParent c)
    then have "units s' = units s" "rs' = rs" using ps rs'
      by (auto simp: Let_def)
    then show ?thesis using old by simp
  qed
qed

lemma rexec_results:
  assumes ok: "\<forall>k < length tasks. (tasks ! k) None = ReturnsR (vs ! k) None"
  shows "pinv (map plain tasks) s \<Longrightarrow> rexec tasks evs (s, rs) = Some (s', rs') \<Longrightarrow>
     length rs = length tasks \<Longrightarrow>
     parentCtx s = None \<longrightarrow>
       (\<forall>k < length tasks. units s ! k \<noteq> Running \<longrightarrow>
          rs ! k = vs ! k \<and> results_nil (units s ! k)) \<Longrightarrow>
     parentCtx s' = None \<longrightarrow>
       (\<forall>k < length tasks. units s' ! k \<noteq> Running \<longrightarrow>
          rs' ! k = vs ! k \<and> results_nil (units s' ! k))"
proof (induction evs arbitrary: s rs)
  case Nil
  then show ?case by simp
next
  case (Cons ev evs)
  from Cons.prems(2) obtain s1 rs1 where st: "rstep tasks ev (s, rs) = Some (s1, rs1)"
    and rest: "rexec tasks evs (s1, rs1) = Some (s', rs')"
    by (auto split: option.splits)
  from st have ps: "pstep (map plain tasks) ev s = Some s1" unfolding rstep_Some by blast
  have inv1: "pinv (map plain tasks) s1" using Cons.prems(1) ps by (rule pinv_step)
  have len1: "length rs1 = length tasks"
    using st Cons.prems(3) unfolding rstep_Some by (simp add: store_length)
  have res1: "parentCtx s1 = None \<longrightarrow>
      (\<forall>k < length tasks. units s1 ! k \<noteq> Running \<longrightarrow>
         rs1 ! k = vs ! k \<and> results_nil (units s1 ! k))"
    using rstep_results[OF ok Cons.prems(1) st Cons.prems(3,4)] by blast
  from Cons.IH[OF inv1 rest len1 res1] show ?case .
qed

lemma NewParallelWithResult_results:
  assumes ok: "\<forall>k < length tasks. (tasks ! k) None = ReturnsR (vs ! k) None"
    and ne: "tasks \<noteq> []"
    and run: "rexec tasks evs (NewParallelWithResult zero parent tasks) = Some (s, rs)"
    and live: "parentCtx s = None"
  shows "\<forall>k < length tasks. units s ! k \<noteq> Running \<longrightarrow>
           rs ! k = vs ! k \<and> results_nil (units s ! k)"
proof -
  let ?T = "map plain tasks"
  let ?s0 = "NewParallelGoture parent ?T"
  let ?r0 = "replicate (length tasks) zero"
  have run': "rexec tasks evs (?s0, ?r0) = Some (s, rs)"
    using run by (simp add: NewParallelWithResult_def)
  have inv: "pinv ?T ?s0" using ne by (simp add: pinv_init)
  have r: "length ?r0 = length tasks" by simp
  have i: "parentCtx ?s0 = None \<longrightarrow>
      (\<forall>k < length tasks. units ?s0 ! k \<noteq> Running \<longrightarrow>
         ?r0 ! k = vs ! k \<and> results_nil (units ?s0 ! k))"
    using ne by (simp add: NewParallelGoture_def)
  from rexec_results[OF ok inv run' r i] live show ?thesis by blast
qed

lemma NewParallelWithResult_length:
  "rexec tasks evs (NewParallelWithResult zero parent tasks) = Some (s, rs) \<Longrightarrow>
   length rs = length tasks"
  using rexec_length[of tasks evs "NewParallelGoture parent (map plain tasks)"
      "replicate (length tasks) zero" s rs]
  by (simp add: NewParallelWithResult_def)

lemma NewParallelWithResult_pexec:
  "rexec tasks evs (NewParallelWithResult zero parent tasks) = Some (s, rs) \<Longrightarrow>
   pexec (map plain tasks) evs (NewParallelGoture parent (map plain tasks)) = Some s"
  by (simp add: NewParallelWithResult_def rexec_pexec)

text \<open>
  When no task fails, a \<open>Wait\<close> that has returned under a parent that is not canceled
  yields the tasks' values in submission order and no error.
\<close>

lemma results_when_returned:
  assumes len: "length vs = length tasks"
    and ok: "\<forall>k < length tasks. (tasks ! k) None = ReturnsR (vs ! k) None"
    and run: "rexec tasks evs (NewParallelWithResult zero parent tasks) = Some (s, rs)"
    and par: "parentCtx s = None"
    and ret: "localCtx s \<noteq> None"
  shows "rs = vs \<and> localCtx s = Some SuccessResult"
proof (cases "tasks = []")
  case True
  have "pexec [] evs (NewParallelGoture parent []) = Some s"
    using NewParallelWithResult_pexec[OF run] True by simp
  then have "zinv s" by (rule zinv_reachable)
  then have "localCtx s = Some SuccessResult"
    using par ret by (cases "coordinator s") (auto simp: zinv_def)
  moreover have "length rs = length tasks" using run by (rule NewParallelWithResult_length)
  ultimately show ?thesis using True len by simp
next
  case False
  let ?T = "map plain tasks"
  have ne: "?T \<noteq> []" using False by simp
  have p: "pexec ?T evs (NewParallelGoture parent ?T) = Some s"
    using run by (rule NewParallelWithResult_pexec)
  have inv: "pinv ?T s" using ne p by (rule pinv_reachable)
  from pinv_ctx_set[OF inv ret par] obtain fe
    where x: "coordinator s = Exited fe" and c: "localCtx s = Some (commit_cause fe)" by blast
  have res: "\<forall>k < length tasks. units s ! k \<noteq> Running \<longrightarrow>
      rs ! k = vs ! k \<and> results_nil (units s ! k)"
    using ok False run par by (rule NewParallelWithResult_results)
  have unit: "units s ! k \<noteq> Running \<and> sent_of (units s ! k) = [None]"
    if k: "k < length tasks" for k
  proof -
    have k': "k < length ?T" using k by simp
    from pinv_Exited_all_reported[OF inv x k'] obtain c
      where u: "units s ! k = Reporting [] [report (?T ! k) c]" by blast
    have "units s ! k \<noteq> Running" using u by simp
    then have "results_nil (units s ! k)" using res k by blast
    then show ?thesis using u by (simp add: results_nil_def)
  qed
  have lr: "length rs = length tasks" using run by (rule NewParallelWithResult_length)
  have "rs = vs"
  proof (rule nth_equalityI)
    show "length rs = length vs" using lr len by simp
    fix k assume "k < length rs"
    then have k: "k < length tasks" using lr by simp
    then show "rs ! k = vs ! k" using res unit[OF k] by simp
  qed
  have ul: "length (units s) = length tasks" using inv by (simp add: pinv_def)
  have "\<forall>x \<in> set (concat (map sent_of (units s))). x = None"
  proof
    fix x assume "x \<in> set (concat (map sent_of (units s)))"
    then obtain u where "u \<in> set (units s)" "x \<in> set (sent_of u)" by auto
    then obtain k where "k < length (units s)" "u = units s ! k" "x \<in> set (sent_of u)"
      by (auto simp: in_set_conv_nth)
    then show "x = None" using unit[of k] ul by simp
  qed
  moreover have "set (arrivals s) \<subseteq> set (concat (map sent_of (units s)))"
  proof -
    have "mset (concat (map sent_of (units s))) = mset (arrivals s @ completed s)"
      using inv by (simp add: pinv_def)
    then have "set (concat (map sent_of (units s))) = set (arrivals s @ completed s)"
      by (rule mset_eq_setD)
    then show ?thesis by auto
  qed
  ultimately have "\<forall>x \<in> set (arrivals s). x = None" by blast
  then have "first_error (arrivals s) = None" by (simp add: first_error_None)
  then have "fe = None" using inv x by (simp add: pinv_def coord_ok_def)
  then have "localCtx s = Some SuccessResult" using c by (simp add: commit_cause_def)
  then show ?thesis using \<open>rs = vs\<close> by simp
qed

lemma pstep_Commit_sets:
  "pstep tasks Commit s = Some s' \<Longrightarrow> localCtx s' \<noteq> None \<and> parentCtx s' = parentCtx s"
  by (cases "localCtx s")
    (auto simp: cancel_def split: coord.splits if_splits option.splits)

lemma all_ended_after_Commit:
  assumes "pexec tasks evs (NewParallelGoture parent tasks) = Some s0"
    and "pstep tasks Commit s0 = Some s1"
  shows "\<forall>k < length (units s1). units s1 ! k \<noteq> Running"
proof (cases "tasks = []")
  case True
  then have "zinv s0" using assms(1) zinv_reachable by blast
  then have "zinv s1" using assms(2) True zinv_step by blast
  then show ?thesis by (simp add: zinv_def)
next
  case False
  then have inv: "pinv tasks s0" using assms(1) by (rule pinv_reachable)
  then have inv1: "pinv tasks s1" using assms(2) by (rule pinv_step)
  from assms(2) inv obtain fe where x: "coordinator s1 = Exited fe"
    by (cases "coordinator s0") (auto simp: pinv_def coord_ok_def split: if_splits)
  show ?thesis
  proof (intro allI impI)
    fix k assume "k < length (units s1)"
    then have "k < length tasks" using inv1 by (simp add: pinv_def)
    from pinv_Exited_all_reported[OF inv1 x this] show "units s1 ! k \<noteq> Running" by auto
  qed
qed

text \<open>
  When no task fails and the parent is not canceled before the library's \<^verbatim>\<open>cancel\<close>
  call, \<open>Wait\<close> returns the tasks' values and no error from then on.
\<close>

lemma results_after_live_commit:
  assumes len: "length vs = length tasks"
    and ok: "\<forall>k < length tasks. (tasks ! k) None = ReturnsR (vs ! k) None"
    and run0: "rexec tasks evs0 (NewParallelWithResult zero parent tasks) = Some (s0, r0)"
    and par: "parentCtx s0 = None"
    and run1: "rexec tasks (Commit # evs1) (s0, r0) = Some (s, rs)"
  shows "WaitR (s, rs) = ReturnedR vs None"
proof -
  from run1 obtain s1 r1 where st: "rstep tasks Commit (s0, r0) = Some (s1, r1)"
    and rest: "rexec tasks evs1 (s1, r1) = Some (s, rs)"
    by (auto split: option.splits)
  from st have ps: "pstep (map plain tasks) Commit s0 = Some s1"
    unfolding rstep_Some by blast
  have c1: "localCtx s1 \<noteq> None" and p1: "parentCtx s1 = None"
    using pstep_Commit_sets[OF ps] par by simp_all
  have "rexec tasks (evs0 @ [Commit]) (NewParallelWithResult zero parent tasks) = Some (s1, r1)"
    using run0 st by (simp add: rexec_append)
  from results_when_returned[OF len ok this p1 c1]
  have r1: "r1 = vs" and l1: "localCtx s1 = Some SuccessResult" by blast+
  have "\<forall>k < length (units s1). units s1 ! k \<noteq> Running"
    using NewParallelWithResult_pexec[OF run0] ps by (rule all_ended_after_Commit)
  then have "rs = r1" using rest by (rule rexec_frozen)
  moreover have "localCtx s = Some SuccessResult"
    using l1 rexec_pexec[OF rest] by (rule pexec_ctx_stable)
  ultimately show ?thesis using r1 by (simp add: Wait_Some)
qed

text \<open>Every run can be continued, the parent left alone, until \<open>Wait\<close> returns.\<close>

lemma results_can_return:
  assumes run: "rexec tasks evs (NewParallelWithResult zero parent tasks) = Some (s, rs)"
  shows "\<exists>evs' s' rs'. rexec tasks evs' (s, rs) = Some (s', rs') \<and>
           parentCtx s' = parentCtx s \<and> localCtx s' \<noteq> None"
proof -
  let ?T = "map plain tasks"
  have p: "pexec ?T evs (NewParallelGoture parent ?T) = Some s"
    using run by (rule NewParallelWithResult_pexec)
  have "\<exists>evs' s'. pexec ?T evs' s = Some s' \<and> parentCtx s' = parentCtx s \<and>
      localCtx s' \<noteq> None"
  proof (cases "tasks = []")
    case True
    then have z: "zinv s" using p zinv_reachable by simp
    show ?thesis
    proof (cases "coordinator s = Constructor")
      case True
      then obtain s' where st: "pstep ?T Commit s = Some s'" by simp
      then have "pexec ?T [Commit] s = Some s'" by simp
      then show ?thesis using pstep_Commit_sets[OF st] by blast
    next
      case False
      then have "localCtx s \<noteq> None"
        using z by (cases "coordinator s") (auto simp: zinv_def)
      then have "pexec ?T [] s = Some s \<and> parentCtx s = parentCtx s \<and> localCtx s \<noteq> None"
        by simp
      then show ?thesis by blast
    qed
  next
    case False
    then have ne: "?T \<noteq> []" by simp
    have inv: "pinv ?T s" using ne p by (rule pinv_reachable)
    from pinv_completes[OF inv] obtain evs' s' fe
      where r: "pexec ?T evs' s = Some s'" and x: "coordinator s' = Exited fe"
        and pc: "parentCtx s' = parentCtx s" by blast
    have "pinv ?T s'" using inv r by (rule pinv_exec)
    then have "localCtx s' \<noteq> None" using x by (auto simp: pinv_def coord_ok_def)
    with r pc show ?thesis by blast
  qed
  then obtain evs' s' where r: "pexec ?T evs' s = Some s'"
    and pc: "parentCtx s' = parentCtx s" and c: "localCtx s' \<noteq> None" by blast
  from pexec_rexec[OF r] obtain rs' where "rexec tasks evs' (s, rs) = Some (s', rs')" by blast
  with pc c show ?thesis by blast
qed

section \<open>After the coordinator's call\<close>

lemma pinv_Exited_facts:
  assumes "pinv tasks s" "coordinator s = Exited fe"
  shows "length (arrivals s) = length tasks \<and> completed s = [] \<and>
         fe = first_error (arrivals s) \<and>
         mset (arrivals s) = mset (concat (map sent_of (units s)))"
proof -
  have len: "length (arrivals s) = length tasks" and fe: "fe = first_error (arrivals s)"
    using assms by (simp_all add: pinv_def coord_ok_def)
  have "total_sent s \<le> length tasks" by (rule pinv_sent_le[OF assms(1)])
  then have emp: "completed s = []" using assms(1) len by (simp add: pinv_def)
  have "mset (arrivals s) = mset (concat (map sent_of (units s)))"
    using assms(1) emp by (simp add: pinv_def)
  with len emp fe show ?thesis by simp
qed

text \<open>A run that contains the coordinator's call under a parent not canceled till then.\<close>

lemma live_commit_run:
  assumes ne: "tasks \<noteq> []"
    and run: "pexec tasks (evs0 @ Commit # evs1) (NewParallelGoture parent tasks) = Some s"
    and run0: "pexec tasks evs0 (NewParallelGoture parent tasks) = Some s0"
    and par: "parentCtx s0 = None"
  shows "\<exists>fe. coordinator s = Exited fe \<and> localCtx s = Some (commit_cause fe) \<and>
           fe = first_error (arrivals s)"
proof -
  have inv0: "pinv tasks s0" using ne run0 by (rule pinv_reachable)
  have inv: "pinv tasks s" using ne run by (rule pinv_reachable)
  have "pexec tasks (Commit # evs1) s0 = Some s"
    using run run0 by (simp add: pexec_append)
  from pinv_Commit_live[OF inv0 par this] obtain fe
    where x: "coordinator s = Exited fe" and c: "localCtx s = Some (commit_cause fe)" by blast
  have "fe = first_error (arrivals s)" using pinv_Exited_facts[OF inv x] by simp
  with x c show ?thesis by blast
qed


lemma pstep_NoCoordinator_stable:
  "coordinator s = NoCoordinator \<Longrightarrow> pstep tasks ev s = Some s' \<Longrightarrow>
   coordinator s' = NoCoordinator"
  by (cases ev)
    (auto simp: Let_def parallel_body_report
      split: if_splits unit_pc.splits list.splits)

lemma pexec_NoCoordinator_stable:
  "coordinator s = NoCoordinator \<Longrightarrow> pexec tasks evs s = Some s' \<Longrightarrow>
   coordinator s' = NoCoordinator"
  by (induction evs arbitrary: s) (auto split: option.splits dest: pstep_NoCoordinator_stable)

text \<open>What a send puts in the channel, and what the end of a task leaves to send.\<close>

lemma pinv_Send_effect:
  assumes "pinv tasks s" "pstep tasks (Send k) s = Some s'"
  shows "\<exists>c. units s ! k = Reporting [report (tasks ! k) c] [] \<and>
           completed s' = completed s @ [report (tasks ! k) c] \<and>
           units s' ! k = Reporting [] [report (tasks ! k) c] \<and>
           arrivals s' = arrivals s"
proof -
  from assms(2) obtain v vs snt where k: "k < length (units s)"
    and r: "units s ! k = Reporting (v # vs) snt"
    and s': "s' = s\<lparr>units := (units s)[k := Reporting vs (snt @ [v])], completed := completed s @ [v]\<rparr>"
    by (auto split: if_splits unit_pc.splits list.splits)
  have kt: "k < length tasks" using assms(1) k by (simp add: pinv_def)
  from pinv_unit_cases[OF assms(1) kt] r obtain c
    where "v = report (tasks ! k) c" "vs = []" "snt = []" by auto
  then show ?thesis using r s' k by auto
qed

lemma pstep_Finish_effect:
  assumes "pstep tasks (Finish k) s = Some s'"
  shows "units s ! k = Running \<and>
         units s' ! k = Reporting [report (tasks ! k) (localCtx s)] [] \<and>
         completed s' = completed s \<and> arrivals s' = arrivals s"
  using assms by (auto simp: parallel_body_report split: if_splits)

section \<open>The claims\<close>

subsection \<open>The coordinator of the parallel future\<close>

text \<open>
  C1, as amended. A parallel future with at least one task. Every run can be continued,
  without the parent being canceled, until the coordinator is past its \<^verbatim>\<open>cancel\<close>
  call. Once it is, it has received exactly \<open>len(tasks)\<close> reports, one from each task,
  and the channel is empty; its \<open>firstError\<close> is the first non-nil report in arrival order
  (\<^verbatim>\<open>nil\<close> exactly when all the reports are \<^verbatim>\<open>nil\<close>); it has called \<^verbatim>\<open>cancel\<close> with
  \<open>firstError\<close> if that is not \<^verbatim>\<open>nil\<close> and with \<^verbatim>\<open>SuccessResult{}\<close> otherwise, so the
  context carries that cause unless the canceled parent's cause was there first. When
  the parent context is not canceled before the coordinator's call, the context carries
  that cause whatever happens afterwards, and if \<open>firstError\<close> is not a
  \<^verbatim>\<open>SuccessResult\<close> value \<open>Wait\<close> returns \<open>firstError\<close>: the first error, or \<^verbatim>\<open>nil\<close> if
  all reports were \<^verbatim>\<open>nil\<close>.
\<close>

theorem coordinator_commits_first_error:
  assumes "tasks \<noteq> []"
    and "pexec tasks evs (NewParallelGoture parent tasks) = Some s"
  shows "(\<exists>evs' s' fe. pexec tasks evs' s = Some s' \<and> coordinator s' = Exited fe \<and>
            parentCtx s' = parentCtx s) \<and>
         (\<forall>fe. coordinator s = Exited fe \<longrightarrow>
            length (arrivals s) = length tasks \<and> completed s = [] \<and>
            mset (arrivals s) = mset (concat (map sent_of (units s))) \<and>
            (\<forall>k < length tasks. \<exists>c. units s ! k = Reporting [] [report (tasks ! k) c]) \<and>
            fe = first_error (arrivals s) \<and>
            (fe = None \<longleftrightarrow> (\<forall>r \<in> set (arrivals s). r = None)) \<and>
            (\<forall>e. fe = Some e \<longrightarrow>
               (\<exists>before after. arrivals s = before @ Some e # after \<and>
                  (\<forall>r \<in> set before. r = None))) \<and>
            (localCtx s = Some (case fe of None \<Rightarrow> SuccessResult | Some e \<Rightarrow> e) \<or>
             (parentCtx s \<noteq> None \<and> localCtx s = parentCtx s)) \<and>
            (parentCtx s = None \<and> fe \<noteq> Some SuccessResult \<longrightarrow>
               Wait (localCtx s) = Returned fe)) \<and>
         (\<forall>evs0 evs1 s0.
            evs = evs0 @ Commit # evs1 \<and>
            pexec tasks evs0 (NewParallelGoture parent tasks) = Some s0 \<and>
            parentCtx s0 = None \<longrightarrow>
            (\<exists>fe. coordinator s = Exited fe \<and> fe = first_error (arrivals s) \<and>
               localCtx s = Some (case fe of None \<Rightarrow> SuccessResult | Some e \<Rightarrow> e) \<and>
               (fe \<noteq> Some SuccessResult \<longrightarrow> Wait (localCtx s) = Returned fe)))"
proof (intro conjI allI impI)
  have inv: "pinv tasks s" using assms by (rule pinv_reachable)
  from pinv_completes[OF inv]
  show "\<exists>evs' s' fe. pexec tasks evs' s = Some s' \<and> coordinator s' = Exited fe \<and>
      parentCtx s' = parentCtx s" .
  {
    fix evs0 evs1 s0
    assume h: "evs = evs0 @ Commit # evs1 \<and>
      pexec tasks evs0 (NewParallelGoture parent tasks) = Some s0 \<and> parentCtx s0 = None"
    then have "pexec tasks (evs0 @ Commit # evs1) (NewParallelGoture parent tasks) = Some s"
      using assms(2) by simp
    from live_commit_run[OF assms(1) this] h obtain fe
      where x: "coordinator s = Exited fe" and c: "localCtx s = Some (commit_cause fe)"
        and f: "fe = first_error (arrivals s)" by blast
    have "fe \<noteq> Some SuccessResult \<longrightarrow> Wait (localCtx s) = Returned fe"
      using c by (cases fe) (simp_all add: Wait_Some commit_cause_def)
    with x c f
    show "\<exists>fe. coordinator s = Exited fe \<and> fe = first_error (arrivals s) \<and>
        localCtx s = Some (case fe of None \<Rightarrow> SuccessResult | Some e \<Rightarrow> e) \<and>
        (fe \<noteq> Some SuccessResult \<longrightarrow> Wait (localCtx s) = Returned fe)"
      by (auto simp: commit_cause_def)
  }
  fix fe assume x: "coordinator s = Exited fe"
  note facts = pinv_Exited_facts[OF inv x]
  show "length (arrivals s) = length tasks" using facts by simp
  show "completed s = []" using facts by simp
  show "mset (arrivals s) = mset (concat (map sent_of (units s)))" using facts by simp
  show fe: "fe = first_error (arrivals s)" using facts by simp
  show "fe = None \<longleftrightarrow> (\<forall>r \<in> set (arrivals s). r = None)"
    using fe first_error_None by simp
  show ctx: "localCtx s = Some (case fe of None \<Rightarrow> SuccessResult | Some e \<Rightarrow> e) \<or>
      (parentCtx s \<noteq> None \<and> localCtx s = parentCtx s)"
    using inv x by (auto simp: pinv_def coord_ok_def commit_cause_def)
  {
    fix k assume "k < length tasks"
    then show "\<exists>c. units s ! k = Reporting [] [report (tasks ! k) c]"
      by (rule pinv_Exited_all_reported[OF inv x])
  }
  {
    fix e assume "fe = Some e"
    then have "first_error (arrivals s) = Some e" using fe by simp
    then show "\<exists>before after. arrivals s = before @ Some e # after \<and>
        (\<forall>r \<in> set before. r = None)"
      by (rule first_error_Some)
  }
  {
    assume h: "parentCtx s = None \<and> fe \<noteq> Some SuccessResult"
    then have "localCtx s = Some (case fe of None \<Rightarrow> SuccessResult | Some e \<Rightarrow> e)"
      using ctx by simp
    then show "Wait (localCtx s) = Returned fe"
      using h by (cases fe) (simp_all add: Wait_Some)
  }
qed

theorem coordinator_commits_first_error_witness:
  "\<exists>s0 s. [\<lambda>c::ctx. Returns None, \<lambda>c. Returns (Some (ErrorString ''a'')),
            \<lambda>c. Panics (AnyString ''b'')] \<noteq> [] \<and>
     pexec [\<lambda>c. Returns None, \<lambda>c. Returns (Some (ErrorString ''a'')), \<lambda>c. Panics (AnyString ''b'')]
       [Finish 2, Send 2, Finish 0, Finish 1, Recv, Send 1, Send 0, Recv, Recv]
       (NewParallelGoture None
         [\<lambda>c. Returns None, \<lambda>c. Returns (Some (ErrorString ''a'')), \<lambda>c. Panics (AnyString ''b'')]) = Some s0 \<and>
     parentCtx s0 = None \<and>
     pexec [\<lambda>c. Returns None, \<lambda>c. Returns (Some (ErrorString ''a'')), \<lambda>c. Panics (AnyString ''b'')]
       ([Finish 2, Send 2, Finish 0, Finish 1, Recv, Send 1, Send 0, Recv, Recv] @
        Commit # [CancelParent Canceled])
       (NewParallelGoture None
         [\<lambda>c. Returns None, \<lambda>c. Returns (Some (ErrorString ''a'')), \<lambda>c. Panics (AnyString ''b'')]) = Some s \<and>
     coordinator s = Exited (Some (ErrorString ''b'')) \<and>
     arrivals s = [Some (ErrorString ''b''), Some (ErrorString ''a''), None] \<and>
     parentCtx s = Some Canceled \<and>
     Wait (localCtx s) = Returned (Some (ErrorString ''b''))"
proof -
  let ?T = "[\<lambda>c::ctx. Returns None, \<lambda>c::ctx. Returns (Some (ErrorString ''a'')),
    \<lambda>c::ctx. Panics (AnyString ''b'')]"
  let ?E0 = "[Finish 2, Send 2, Finish 0, Finish 1, Recv, Send 1, Send 0, Recv, Recv]"
  let ?s = "\<lparr>parentCtx = Some Canceled, localCtx = Some (ErrorString ''b''),
     units = [Reporting [] [None], Reporting [] [Some (ErrorString ''a'')],
       Reporting [] [Some (ErrorString ''b'')]],
     completed = [], capacity = 3, coordinator = Exited (Some (ErrorString ''b'')),
     arrivals = [Some (ErrorString ''b''), Some (ErrorString ''a''), None],
     crashed = False\<rparr>"
  have 1: "?T \<noteq> []" by simp
  have "\<exists>s0. pexec ?T ?E0 (NewParallelGoture None ?T) = Some s0 \<and> parentCtx s0 = None"
    by (simp add: NewParallelGoture_def parallel_body_report report_def)
  then obtain s0 where 2: "pexec ?T ?E0 (NewParallelGoture None ?T) = Some s0"
    and 4: "parentCtx s0 = None" by blast
  have 3: "pexec ?T (?E0 @ Commit # [CancelParent Canceled]) (NewParallelGoture None ?T) = Some ?s"
    by (simp add: NewParallelGoture_def parallel_body_report report_def Let_def)
  have "\<exists>fe. coordinator ?s = Exited fe \<and> fe = first_error (arrivals ?s) \<and>
      localCtx ?s = Some (case fe of None \<Rightarrow> SuccessResult | Some e \<Rightarrow> e) \<and>
      (fe \<noteq> Some SuccessResult \<longrightarrow> Wait (localCtx ?s) = Returned fe)"
    by (rule coordinator_commits_first_error[OF 1 3, THEN conjunct2, THEN conjunct2,
          rule_format,
          where ?evs0.0 = ?E0 and ?evs1.0 = "[CancelParent Canceled]" and ?s0.0 = s0])
      (intro conjI refl 2 4)
  then obtain fe where "coordinator ?s = Exited fe"
    and w: "fe \<noteq> Some SuccessResult \<longrightarrow> Wait (localCtx ?s) = Returned fe"
    by blast
  then have "fe = Some (ErrorString ''b'')" by simp
  with w have 5: "Wait (localCtx ?s) = Returned (Some (ErrorString ''b''))" by simp
  have 6: "coordinator ?s = Exited (Some (ErrorString ''b''))"
    and 7: "arrivals ?s = [Some (ErrorString ''b''), Some (ErrorString ''a''), None]"
    and 8: "parentCtx ?s = Some Canceled"
    by simp_all
  from 1 2 3 4 5 6 7 8 show ?thesis by blast
qed

text \<open>
  C1 as stated fails in two ways. A task that returns \<^verbatim>\<open>SuccessResult{}\<close>: it is the
  first non-nil report, and \<open>Wait\<close> returns \<^verbatim>\<open>nil\<close>. A parent context canceled before
  the coordinator's call: the call changes nothing and \<open>Wait\<close> returns the parent's
  cause, not the first error.
\<close>

theorem coordinator_commits_first_error_counterexample:
  "(\<exists>s. pexec [\<lambda>c. Returns (Some SuccessResult)] [Finish 0, Send 0, Recv, Commit]
          (NewParallelGoture None [\<lambda>c. Returns (Some SuccessResult)]) = Some s \<and>
        coordinator s = Exited (Some SuccessResult) \<and>
        first_error (arrivals s) = Some SuccessResult \<and>
        Wait (localCtx s) = Returned None \<and>
        Wait (localCtx s) \<noteq> Returned (Some SuccessResult)) \<and>
   (\<exists>s. pexec [\<lambda>c. Returns (Some (ErrorString ''boom''))]
          [CancelParent Canceled, Finish 0, Send 0, Recv, Commit]
          (NewParallelGoture None [\<lambda>c. Returns (Some (ErrorString ''boom''))]) = Some s \<and>
        coordinator s = Exited (Some (ErrorString ''boom'')) \<and>
        first_error (arrivals s) = Some (ErrorString ''boom'') \<and>
        Wait (localCtx s) = Returned (Some Canceled) \<and>
        Wait (localCtx s) \<noteq> Returned (Some (ErrorString ''boom'')))"
  by (simp add: NewParallelGoture_def parallel_body_report report_def Wait_Some Let_def)

subsection \<open>Siblings of a failing task\<close>




subsection \<open>The error of a single task\<close>




subsection \<open>Panics\<close>




subsection \<open>No tasks\<close>

text \<open>
  C5, as amended. Called with no task, \<^verbatim>\<open>NewParallelGoture\<close> starts no goroutine, neither
  for a task nor for a coordinator, and its own \<^verbatim>\<open>cancel(SuccessResult{})\<close> is never
  blocked, so it returns at once. When the parent context is not canceled before that
  call, the context of the returned future is committed with \<^verbatim>\<open>SuccessResult\<close> and
  \<open>Wait\<close> on it returns \<^verbatim>\<open>nil\<close>, also if the parent is canceled afterwards.
\<close>

theorem NewParallelGoture_no_tasks:
  "units (NewParallelGoture parent []) = [] \<and>
   coordinator (NewParallelGoture parent []) = Constructor \<and>
   (\<forall>evs s. pexec [] evs (NewParallelGoture parent []) = Some s \<longrightarrow>
      units s = [] \<and> (coordinator s = Constructor \<or> coordinator s = NoCoordinator) \<and>
      (coordinator s = Constructor \<longrightarrow> pstep [] Commit s \<noteq> None)) \<and>
   (\<forall>evs0 s0 evs s.
      pexec [] evs0 (NewParallelGoture parent []) = Some s0 \<and> parentCtx s0 = None \<and>
      pexec [] (Commit # evs) s0 = Some s \<longrightarrow>
      coordinator s = NoCoordinator \<and> units s = [] \<and>
      localCtx s = Some SuccessResult \<and> Wait (localCtx s) = Returned None)"
proof (intro conjI allI impI)
  show "units (NewParallelGoture parent []) = []" by (simp add: NewParallelGoture_def)
  show "coordinator (NewParallelGoture parent []) = Constructor"
    by (simp add: NewParallelGoture_def)
next
  fix evs s assume "pexec [] evs (NewParallelGoture parent []) = Some s"
  then have z: "zinv s" by (rule zinv_reachable)
  then show "units s = []" by (simp add: zinv_def)
  show "coordinator s = Constructor \<or> coordinator s = NoCoordinator"
    using z by (cases "coordinator s") (simp_all add: zinv_def)
  assume "coordinator s = Constructor"
  then show "pstep [] Commit s \<noteq> None" by simp
next
  fix evs0 s0 evs s
  assume h: "pexec [] evs0 (NewParallelGoture parent []) = Some s0 \<and> parentCtx s0 = None \<and>
      pexec [] (Commit # evs) s0 = Some s"
  then have z0: "zinv s0" using zinv_reachable by blast
  from h have p: "parentCtx s0 = None" and r: "pexec [] (Commit # evs) s0 = Some s"
    by simp_all
  from zinv_Commit_live[OF z0 p r]
  show c: "localCtx s = Some SuccessResult" and "units s = []" by simp_all
  then show "Wait (localCtx s) = Returned None" by (simp add: Wait_Some)
  from r obtain s1 where st: "pstep [] Commit s0 = Some s1" and rest: "pexec [] evs s1 = Some s"
    by (auto split: option.splits)
  from st z0 have "coordinator s1 = NoCoordinator"
    by (cases "coordinator s0") (auto simp: zinv_def)
  then show "coordinator s = NoCoordinator" using rest by (rule pexec_NoCoordinator_stable)
qed

theorem NewParallelGoture_no_tasks_witness:
  "\<exists>s. pexec [] [] (NewParallelGoture None []) = Some (NewParallelGoture None []) \<and>
     parentCtx (NewParallelGoture None []) = None \<and>
     pexec [] (Commit # [CancelParent Canceled]) (NewParallelGoture None []) = Some s \<and>
     parentCtx s = Some Canceled \<and> units s = [] \<and> coordinator s = NoCoordinator \<and>
     Wait (localCtx s) = Returned None"
proof -
  let ?s = "\<lparr>parentCtx = Some Canceled, localCtx = Some SuccessResult, units = [],
     completed = [], capacity = 0, coordinator = NoCoordinator, arrivals = [],
     crashed = False\<rparr>"
  have 1: "pexec [] [] (NewParallelGoture None []) = Some (NewParallelGoture None [])"
    by simp
  have 2: "parentCtx (NewParallelGoture None []) = None" by (simp add: NewParallelGoture_def)
  have 3: "pexec [] (Commit # [CancelParent Canceled]) (NewParallelGoture None []) = Some ?s"
    by (simp add: NewParallelGoture_def Let_def)
  have "coordinator ?s = NoCoordinator \<and> units ?s = [] \<and>
      localCtx ?s = Some SuccessResult \<and> Wait (localCtx ?s) = Returned None"
    by (rule NewParallelGoture_no_tasks[THEN conjunct2, THEN conjunct2, THEN conjunct2,
          rule_format, where parent = None and ?evs0.0 = "[]"
            and ?s0.0 = "NewParallelGoture None []" and evs = "[CancelParent Canceled]"
            and s = ?s])
      (intro conjI 1 2 3)
  then have 4: "Wait (localCtx ?s) = Returned None" and 5: "coordinator ?s = NoCoordinator"
    and 6: "units ?s = []" by simp_all
  have 7: "parentCtx ?s = Some Canceled" by simp
  from 1 2 3 4 5 6 7 show ?thesis by blast
qed

text \<open>
  C5 as stated fails when the parent context is canceled before the constructor's
  \<^verbatim>\<open>cancel(SuccessResult{})\<close>, be it before the call or between the constructor's two
  statements: the child carries the parent's cause and \<open>Wait\<close> returns it.
\<close>

theorem NewParallelGoture_no_tasks_counterexample:
  "(\<exists>s. pexec [] [Commit] (NewParallelGoture (Some Canceled) []) = Some s \<and>
        units s = [] \<and> coordinator s = NoCoordinator \<and>
        localCtx s = Some Canceled \<and>
        Wait (localCtx s) = Returned (Some Canceled) \<and>
        Wait (localCtx s) \<noteq> Returned None) \<and>
   (\<exists>s. pexec [] [CancelParent Canceled, Commit] (NewParallelGoture None []) = Some s \<and>
        units s = [] \<and> coordinator s = NoCoordinator \<and>
        localCtx s = Some Canceled \<and>
        Wait (localCtx s) = Returned (Some Canceled) \<and>
        Wait (localCtx s) \<noteq> Returned None)"
  by (simp add: NewParallelGoture_def Wait_Some Let_def)

subsection \<open>The completion channel\<close>

text \<open>
  C6. A parallel future with at least one task: the channel is made with capacity
  \<open>len(tasks)\<close>; the goroutine of a task sends exactly one value, the error the task
  returned or else the error converted from its panic, and no panic leaves it; so in
  every state that can be reached each goroutine is still running its task, or holds
  its one report and finds room in the channel for it, or has sent its one report and
  nothing more. The end of a task leaves its report to be sent and the channel as it
  is; a send appends that report to the channel; the values received and those in the
  channel are, with their multiplicities, the reports sent. The channel never holds more
  than its capacity, and once every goroutine has reported the number of sends is the
  capacity.
\<close>

theorem completion_channel_sends:
  assumes "tasks \<noteq> []"
    and "pexec tasks evs (NewParallelGoture parent tasks) = Some s"
  shows "capacity (NewParallelGoture parent tasks) = length tasks \<and>
         capacity s = length tasks \<and>
         (\<forall>task c. parallel_body task c =
            ([case task c of Returns err \<Rightarrow> err | Panics r \<Rightarrow> Some (makeErrorFromPanic r)],
             None)) \<and>
         (\<forall>k < length tasks.
            units s ! k = Running \<or>
            (\<exists>c. units s ! k = Reporting [report (tasks ! k) c] [] \<and>
                 pstep tasks (Send k) s \<noteq> None) \<or>
            (\<exists>c. units s ! k = Reporting [] [report (tasks ! k) c])) \<and>
         length (completed s) \<le> capacity s \<and>
         total_sent s \<le> capacity s \<and>
         ((\<forall>k < length tasks. reported (units s ! k)) \<longrightarrow> total_sent s = capacity s) \<and>
         mset (arrivals s @ completed s) = mset (concat (map sent_of (units s))) \<and>
         (\<forall>k s'. pstep tasks (Finish k) s = Some s' \<longrightarrow>
            units s ! k = Running \<and>
            units s' ! k = Reporting [report (tasks ! k) (localCtx s)] [] \<and>
            completed s' = completed s \<and> arrivals s' = arrivals s) \<and>
         (\<forall>k s'. pstep tasks (Send k) s = Some s' \<longrightarrow>
            (\<exists>c. units s ! k = Reporting [report (tasks ! k) c] [] \<and>
                 completed s' = completed s @ [report (tasks ! k) c] \<and>
                 units s' ! k = Reporting [] [report (tasks ! k) c] \<and>
                 arrivals s' = arrivals s))"
proof -
  have inv: "pinv tasks s" using assms by (rule pinv_reachable)
  have cap: "capacity s = length tasks" using inv by (simp add: pinv_def)
  have cap0: "capacity (NewParallelGoture parent tasks) = length tasks"
    using assms(1) by (simp add: NewParallelGoture_def)
  have body: "\<forall>task c. parallel_body task c =
      ([case task c of Returns err \<Rightarrow> err | Panics r \<Rightarrow> Some (makeErrorFromPanic r)], None)"
    by (simp add: parallel_body_report report_def)
  have units: "units s ! k = Running \<or>
      (\<exists>c. units s ! k = Reporting [report (tasks ! k) c] [] \<and> pstep tasks (Send k) s \<noteq> None) \<or>
      (\<exists>c. units s ! k = Reporting [] [report (tasks ! k) c])"
    if k: "k < length tasks" for k
    using pinv_unit_cases[OF inv k] pinv_send_enabled[OF inv k] by metis
  have sent: "total_sent s \<le> capacity s" using pinv_sent_le[OF inv] cap by simp
  have buf: "length (completed s) \<le> capacity s" using sent inv by (simp add: pinv_def)
  have all: "total_sent s = capacity s" if "\<forall>k < length tasks. reported (units s ! k)"
    using pinv_all_reported_sent[OF inv] that cap by simp
  have ms: "mset (arrivals s @ completed s) = mset (concat (map sent_of (units s)))"
    using inv by (simp add: pinv_def)
  have fin: "\<forall>k s'. pstep tasks (Finish k) s = Some s' \<longrightarrow>
      units s ! k = Running \<and>
      units s' ! k = Reporting [report (tasks ! k) (localCtx s)] [] \<and>
      completed s' = completed s \<and> arrivals s' = arrivals s"
    using pstep_Finish_effect by blast
  have snd: "\<forall>k s'. pstep tasks (Send k) s = Some s' \<longrightarrow>
      (\<exists>c. units s ! k = Reporting [report (tasks ! k) c] [] \<and>
           completed s' = completed s @ [report (tasks ! k) c] \<and>
           units s' ! k = Reporting [] [report (tasks ! k) c] \<and>
           arrivals s' = arrivals s)"
    using pinv_Send_effect[OF inv] by blast
  from cap0 cap body units sent buf all ms fin snd show ?thesis by blast
qed

theorem completion_channel_sends_witness:
  "\<exists>s s'. [\<lambda>c::ctx. Returns None, \<lambda>c. Panics (AnyString ''x'')] \<noteq> [] \<and>
     pexec [\<lambda>c. Returns None, \<lambda>c. Panics (AnyString ''x'')] [Finish 1, Finish 0, Send 0]
       (NewParallelGoture None [\<lambda>c. Returns None, \<lambda>c. Panics (AnyString ''x'')]) = Some s \<and>
     capacity s = 2 \<and> completed s = [None] \<and>
     units s = [Reporting [] [None], Reporting [Some (ErrorString ''x'')] []] \<and>
     pstep [\<lambda>c. Returns None, \<lambda>c. Panics (AnyString ''x'')] (Send 1) s = Some s' \<and>
     completed s' = [None, Some (ErrorString ''x'')] \<and>
     units s' ! 1 = Reporting [] [Some (ErrorString ''x'')] \<and>
     total_sent s \<le> capacity s"
proof -
  let ?T = "[\<lambda>c::ctx. Returns None, \<lambda>c::ctx. Panics (AnyString ''x'')]"
  let ?s = "\<lparr>parentCtx = None, localCtx = None,
     units = [Reporting [] [None], Reporting [Some (ErrorString ''x'')] []],
     completed = [None], capacity = 2, coordinator = Loop 0 None, arrivals = [],
     crashed = False\<rparr>"
  have 1: "?T \<noteq> []" by simp
  have 2: "pexec ?T [Finish 1, Finish 0, Send 0] (NewParallelGoture None ?T) = Some ?s"
    by (simp add: NewParallelGoture_def parallel_body_report report_def)
  have 3: "units ?s ! 1 = Reporting [Some (ErrorString ''x'')] []" by simp
  have 4: "(1::nat) < length ?T" by simp
  note inst = completion_channel_sends[OF 1 2]
  have cap: "capacity ?s = length ?T"
    by (rule inst[THEN conjunct2, THEN conjunct1])
  have le: "total_sent ?s \<le> capacity ?s"
    by (rule inst[THEN conjunct2, THEN conjunct2, THEN conjunct2, THEN conjunct2,
          THEN conjunct2, THEN conjunct1])
  have all: "\<forall>k < length ?T.
      units ?s ! k = Running \<or>
      (\<exists>c. units ?s ! k = Reporting [report (?T ! k) c] [] \<and> pstep ?T (Send k) ?s \<noteq> None) \<or>
      (\<exists>c. units ?s ! k = Reporting [] [report (?T ! k) c])"
    by (rule inst[THEN conjunct2, THEN conjunct2, THEN conjunct2, THEN conjunct1])
  have snd: "\<forall>k s'. pstep ?T (Send k) ?s = Some s' \<longrightarrow>
      (\<exists>c. units ?s ! k = Reporting [report (?T ! k) c] [] \<and>
           completed s' = completed ?s @ [report (?T ! k) c] \<and>
           units s' ! k = Reporting [] [report (?T ! k) c] \<and>
           arrivals s' = arrivals ?s)"
    by (rule inst[THEN conjunct2, THEN conjunct2, THEN conjunct2, THEN conjunct2,
          THEN conjunct2, THEN conjunct2, THEN conjunct2, THEN conjunct2, THEN conjunct2])
  from all 4 have "units ?s ! 1 = Running \<or>
      (\<exists>c. units ?s ! 1 = Reporting [report (?T ! 1) c] [] \<and> pstep ?T (Send 1) ?s \<noteq> None) \<or>
      (\<exists>c. units ?s ! 1 = Reporting [] [report (?T ! 1) c])"
    by blast
  with 3 have "pstep ?T (Send 1) ?s \<noteq> None" by auto
  then obtain s' where st: "pstep ?T (Send 1) ?s = Some s'" by blast
  with snd obtain c where "units ?s ! 1 = Reporting [report (?T ! 1) c] []"
    and c: "completed s' = completed ?s @ [report (?T ! 1) c]"
    and u: "units s' ! 1 = Reporting [] [report (?T ! 1) c]"
    by blast
  then have r: "report (?T ! 1) c = Some (ErrorString ''x'')" by simp
  have 5: "completed s' = [None, Some (ErrorString ''x'')]" using c r by simp
  have 6: "units s' ! 1 = Reporting [] [Some (ErrorString ''x'')]" using u r by simp
  have 7: "capacity ?s = 2" using cap by simp
  have 8: "completed ?s = [None]"
    and 9: "units ?s = [Reporting [] [None], Reporting [Some (ErrorString ''x'')] []]"
    by simp_all
  from 1 2 st 5 6 7 8 9 le show ?thesis by blast
qed

subsection \<open>Results in submission order\<close>

text \<open>
  C7, as amended. The parallel future that carries results, for every list of tasks of
  which the task at index \<open>i\<close>, on a context that is not canceled, yields \<open>v\<^sub>i\<close> with a
  \<^verbatim>\<open>nil\<close> error, and every order of the events. When the parent context is not canceled
  before the library's \<^verbatim>\<open>cancel\<close> call, \<open>Wait\<close> returns from then on, whatever happens
  afterwards, the sequence \<open>[v\<^sub>0, \<dots>]\<close> in submission order with a \<^verbatim>\<open>nil\<close> error. While
  the parent is not canceled \<open>Wait\<close> is blocked or returns just that, and the run can
  be continued to a state in which it returns it.
\<close>

theorem parallel_results_in_submission_order:
  assumes "length vs = length tasks"
    and "\<forall>k < length tasks. (tasks ! k) None = ReturnsR (vs ! k) None"
    and "rexec tasks evs (NewParallelWithResult zero parent tasks) = Some (s, results)"
  shows "(\<forall>evs0 evs1 s0 r0.
            evs = evs0 @ Commit # evs1 \<and>
            rexec tasks evs0 (NewParallelWithResult zero parent tasks) = Some (s0, r0) \<and>
            parentCtx s0 = None \<longrightarrow>
            WaitR (s, results) = ReturnedR vs None) \<and>
         (parentCtx s = None \<longrightarrow>
            WaitR (s, results) = BlockedR \<or> WaitR (s, results) = ReturnedR vs None) \<and>
         (parentCtx s = None \<longrightarrow>
            (\<exists>evs' s' results'. rexec tasks evs' (s, results) = Some (s', results') \<and>
               parentCtx s' = None \<and> WaitR (s', results') = ReturnedR vs None))"
proof (intro conjI allI impI)
  fix evs0 evs1 s0 r0
  assume h: "evs = evs0 @ Commit # evs1 \<and>
      rexec tasks evs0 (NewParallelWithResult zero parent tasks) = Some (s0, r0) \<and>
      parentCtx s0 = None"
  then have r0: "rexec tasks evs0 (NewParallelWithResult zero parent tasks) = Some (s0, r0)"
    and p: "parentCtx s0 = None" by simp_all
  have "rexec tasks (Commit # evs1) (s0, r0) = Some (s, results)"
    using assms(3) h by (simp add: rexec_append)
  with assms(1,2) r0 p show "WaitR (s, results) = ReturnedR vs None"
    by (rule results_after_live_commit)
next
  assume p: "parentCtx s = None"
  show "WaitR (s, results) = BlockedR \<or> WaitR (s, results) = ReturnedR vs None"
  proof (cases "localCtx s")
    case None
    then show ?thesis by simp
  next
    case (Some c)
    then have "localCtx s \<noteq> None" by simp
    from results_when_returned[OF assms p this] show ?thesis by (simp add: Wait_Some)
  qed
next
  assume p: "parentCtx s = None"
  from results_can_return[OF assms(3)] obtain evs' s' rs'
    where r: "rexec tasks evs' (s, results) = Some (s', rs')"
      and pc: "parentCtx s' = parentCtx s" and c: "localCtx s' \<noteq> None" by blast
  have p': "parentCtx s' = None" using pc p by simp
  have "rexec tasks (evs @ evs') (NewParallelWithResult zero parent tasks) = Some (s', rs')"
    using assms(3) r by (simp add: rexec_append)
  from results_when_returned[OF assms(1,2) this p' c]
  have "WaitR (s', rs') = ReturnedR vs None" by (simp add: Wait_Some)
  with r p' show "\<exists>evs' s' results'. rexec tasks evs' (s, results) = Some (s', results') \<and>
      parentCtx s' = None \<and> WaitR (s', results') = ReturnedR vs None"
    by blast
qed

theorem parallel_results_in_submission_order_witness:
  "\<exists>s0 r0 s results.
     length [10, 20, 30 :: int] =
       length [\<lambda>c::ctx. if c = None then ReturnsR (10::int) None else ReturnsR 0 c,
               \<lambda>c. ReturnsR 20 None, \<lambda>c. ReturnsR 30 None] \<and>
     rexec [\<lambda>c. if c = None then ReturnsR 10 None else ReturnsR 0 c,
            \<lambda>c. ReturnsR 20 None, \<lambda>c. ReturnsR 30 None]
       [Finish 2, Finish 0, Send 0, Finish 1, Send 2, Send 1, Recv, Recv, Recv]
       (NewParallelWithResult (0::int) None
         [\<lambda>c. if c = None then ReturnsR 10 None else ReturnsR 0 c,
          \<lambda>c. ReturnsR 20 None, \<lambda>c. ReturnsR 30 None]) = Some (s0, r0) \<and>
     parentCtx s0 = None \<and>
     (WaitR (s0, r0) = BlockedR \<or> WaitR (s0, r0) = ReturnedR [10, 20, 30] None) \<and>
     rexec [\<lambda>c. if c = None then ReturnsR 10 None else ReturnsR 0 c,
            \<lambda>c. ReturnsR 20 None, \<lambda>c. ReturnsR 30 None]
       ([Finish 2, Finish 0, Send 0, Finish 1, Send 2, Send 1, Recv, Recv, Recv] @
        Commit # [CancelParent Canceled])
       (NewParallelWithResult (0::int) None
         [\<lambda>c. if c = None then ReturnsR 10 None else ReturnsR 0 c,
          \<lambda>c. ReturnsR 20 None, \<lambda>c. ReturnsR 30 None]) = Some (s, results) \<and>
     parentCtx s = Some Canceled \<and>
     WaitR (s, results) = ReturnedR [10, 20, 30] None"
proof -
  let ?T = "[\<lambda>c::ctx. if c = None then ReturnsR (10::int) None else ReturnsR 0 c,
    \<lambda>c::ctx. ReturnsR 20 None, \<lambda>c::ctx. ReturnsR 30 None]"
  let ?vs = "[10, 20, 30 :: int]"
  let ?E0 = "[Finish 2, Finish 0, Send 0, Finish 1, Send 2, Send 1, Recv, Recv, Recv]"
  let ?s = "\<lparr>parentCtx = Some Canceled, localCtx = Some SuccessResult,
     units = [Reporting [] [None], Reporting [] [None], Reporting [] [None]],
     completed = [], capacity = 3, coordinator = Exited None,
     arrivals = [None, None, None], crashed = False\<rparr>"
  have 1: "length ?vs = length ?T" by simp
  have 2: "\<forall>k < length ?T. (?T ! k) None = ReturnsR (?vs ! k) None"
    by (simp add: less_Suc_eq nth_Cons')
  have "\<exists>s0 r0. rexec ?T ?E0 (NewParallelWithResult 0 None ?T) = Some (s0, r0) \<and>
      parentCtx s0 = None"
    by (simp add: NewParallelWithResult_def NewParallelGoture_def parallel_body_report
        report_def plain_def)
  then obtain s0 r0 where 3: "rexec ?T ?E0 (NewParallelWithResult 0 None ?T) = Some (s0, r0)"
    and 4: "parentCtx s0 = None" by blast
  have 5: "rexec ?T (?E0 @ Commit # [CancelParent Canceled]) (NewParallelWithResult 0 None ?T) =
      Some (?s, ?vs)"
    by (simp add: NewParallelWithResult_def NewParallelGoture_def parallel_body_report
        report_def plain_def Let_def)
  have 6: "WaitR (?s, ?vs) = ReturnedR ?vs None"
    by (rule parallel_results_in_submission_order[OF 1 2 5, THEN conjunct1, rule_format,
          where ?evs0.0 = ?E0 and ?evs1.0 = "[CancelParent Canceled]" and ?s0.0 = s0
            and ?r0.0 = r0])
      (intro conjI refl 3 4)
  have 7: "parentCtx ?s = Some Canceled" by simp
  have 8: "WaitR (s0, r0) = BlockedR \<or> WaitR (s0, r0) = ReturnedR ?vs None"
    by (rule parallel_results_in_submission_order[OF 1 2 3, THEN conjunct2, THEN conjunct1,
          rule_format, OF 4])
  from 1 3 4 5 6 7 8 show ?thesis by blast
qed

text \<open>
  C7 as stated fails when the parent context is canceled while the tasks run: no task
  fails, yet \<open>Wait\<close> returns the parent's cause and a sequence with default values.
\<close>

theorem parallel_results_in_submission_order_counterexample:
  "\<exists>s results.
     rexec [\<lambda>c. ReturnsR 10 None, \<lambda>c. ReturnsR 20 None, \<lambda>c. ReturnsR 30 None]
       [Finish 1, CancelParent Canceled]
       (NewParallelWithResult (0::int) None
         [\<lambda>c. ReturnsR 10 None, \<lambda>c. ReturnsR 20 None, \<lambda>c. ReturnsR 30 None]) = Some (s, results) \<and>
     WaitR (s, results) = ReturnedR [0, 20, 0] (Some Canceled) \<and>
     WaitR (s, results) \<noteq> ReturnedR [10, 20, 30] None"
  by (simp add: NewParallelWithResult_def NewParallelGoture_def parallel_body_report
      report_def plain_def Wait_Some Let_def)

subsection \<open>Repeated and concurrent Wait\<close>

text \<open>
  C8. Once the cause of a future's context is committed, it stays what it is whatever
  happens afterwards (the goroutines go on, the parent is canceled), for the single-task
  and for the parallel future; \<open>Wait\<close> reads nothing but that cause, so every call of
  \<open>Wait\<close> from then on returns the same outcome: \<^verbatim>\<open>nil\<close> for a \<^verbatim>\<open>SuccessResult\<close>
  cause, the cause otherwise.
\<close>

theorem Wait_same_outcome_once_committed:
  "(\<forall>fn evs s s' c. g_ctx s = Some c \<and> gexec fn evs s = Some s' \<longrightarrow>
      g_ctx s' = Some c \<and> Wait (g_ctx s') = Wait (g_ctx s)) \<and>
   (\<forall>tasks evs s s' c. localCtx s = Some c \<and> pexec tasks evs s = Some s' \<longrightarrow>
      localCtx s' = Some c \<and> Wait (localCtx s') = Wait (localCtx s)) \<and>
   (\<forall>c. Wait (Some c) = Returned (if c = SuccessResult then None else Some c))"
proof (intro conjI allI impI)
  fix fn evs and s s' :: gstate and c
  assume "g_ctx s = Some c \<and> gexec fn evs s = Some s'"
  then have "g_ctx s' = Some c" and "g_ctx s = Some c"
    using gexec_ctx_stable by blast+
  then show "g_ctx s' = Some c" and "Wait (g_ctx s') = Wait (g_ctx s)" by simp_all
next
  fix tasks evs and s s' :: pstate and c
  assume "localCtx s = Some c \<and> pexec tasks evs s = Some s'"
  then have "localCtx s' = Some c" and "localCtx s = Some c"
    using pexec_ctx_stable by blast+
  then show "localCtx s' = Some c" and "Wait (localCtx s') = Wait (localCtx s)" by simp_all
next
  fix c show "Wait (Some c) = Returned (if c = SuccessResult then None else Some c)"
    by (rule Wait_Some)
qed

theorem Wait_same_outcome_once_committed_witness:
  "(\<exists>s s'. gexec (\<lambda>c. Returns (Some (ErrorString ''boom''))) [GFinish]
            (NewGoture None (\<lambda>c. Returns (Some (ErrorString ''boom'')))) = Some s \<and>
     g_ctx s = Some (ErrorString ''boom'') \<and>
     gexec (\<lambda>c. Returns (Some (ErrorString ''boom'')))
       [GCancelParent Canceled, GCancelParent DeadlineExceeded] s = Some s' \<and>
     Wait (g_ctx s') = Returned (Some (ErrorString ''boom'')) \<and>
     Wait (g_ctx s') = Wait (g_ctx s)) \<and>
   (\<exists>s s'. pexec [\<lambda>c. Returns (Some (ErrorString ''boom''))] [Finish 0, Send 0, Recv, Commit]
            (NewParallelGoture None [\<lambda>c. Returns (Some (ErrorString ''boom''))]) = Some s \<and>
     localCtx s = Some (ErrorString ''boom'') \<and>
     pexec [\<lambda>c. Returns (Some (ErrorString ''boom''))] [CancelParent Canceled] s = Some s' \<and>
     Wait (localCtx s') = Returned (Some (ErrorString ''boom'')) \<and>
     Wait (localCtx s') = Wait (localCtx s))"
proof -
  let ?fn = "\<lambda>c::ctx. Returns (Some (ErrorString ''boom''))"
  let ?s = "\<lparr>g_parent = None, g_ctx = Some (ErrorString ''boom''), g_running = False,
     g_escaped = None\<rparr>"
  let ?s' = "\<lparr>g_parent = Some Canceled, g_ctx = Some (ErrorString ''boom''),
     g_running = False, g_escaped = None\<rparr>"
  let ?p = "\<lparr>parentCtx = None, localCtx = Some (ErrorString ''boom''),
     units = [Reporting [] [Some (ErrorString ''boom'')]], completed = [], capacity = 1,
     coordinator = Exited (Some (ErrorString ''boom'')),
     arrivals = [Some (ErrorString ''boom'')], crashed = False\<rparr>"
  let ?p' = "\<lparr>parentCtx = Some Canceled, localCtx = Some (ErrorString ''boom''),
     units = [Reporting [] [Some (ErrorString ''boom'')]], completed = [], capacity = 1,
     coordinator = Exited (Some (ErrorString ''boom'')),
     arrivals = [Some (ErrorString ''boom'')], crashed = False\<rparr>"
  have 1: "gexec ?fn [GFinish] (NewGoture None ?fn) = Some ?s"
    by (simp add: NewGoture_def goture_body_Returns)
  have 2: "gexec ?fn [GCancelParent Canceled, GCancelParent DeadlineExceeded] ?s = Some ?s'"
    by simp
  have 3: "g_ctx ?s = Some (ErrorString ''boom'')" by simp
  from Wait_same_outcome_once_committed 2 3
  have g: "g_ctx ?s' = Some (ErrorString ''boom'') \<and> Wait (g_ctx ?s') = Wait (g_ctx ?s)"
    by blast
  have 4: "pexec [?fn] [Finish 0, Send 0, Recv, Commit] (NewParallelGoture None [?fn]) = Some ?p"
    by (simp add: NewParallelGoture_def parallel_body_report report_def)
  have 5: "pexec [?fn] [CancelParent Canceled] ?p = Some ?p'"
    by (simp add: Let_def)
  have 6: "localCtx ?p = Some (ErrorString ''boom'')" by simp
  from Wait_same_outcome_once_committed 5 6
  have p: "localCtx ?p' = Some (ErrorString ''boom'') \<and> Wait (localCtx ?p') = Wait (localCtx ?p)"
    by blast
  have a: "\<exists>s s'. gexec ?fn [GFinish] (NewGoture None ?fn) = Some s \<and>
     g_ctx s = Some (ErrorString ''boom'') \<and>
     gexec ?fn [GCancelParent Canceled, GCancelParent DeadlineExceeded] s = Some s' \<and>
     Wait (g_ctx s') = Returned (Some (ErrorString ''boom'')) \<and>
     Wait (g_ctx s') = Wait (g_ctx s)"
    using 1 2 3 g by (simp add: Wait_Some)
  have b: "\<exists>s s'. pexec [?fn] [Finish 0, Send 0, Recv, Commit]
       (NewParallelGoture None [?fn]) = Some s \<and>
     localCtx s = Some (ErrorString ''boom'') \<and>
     pexec [?fn] [CancelParent Canceled] s = Some s' \<and>
     Wait (localCtx s') = Returned (Some (ErrorString ''boom'')) \<and>
     Wait (localCtx s') = Wait (localCtx s)"
    using 4 5 6 p by (simp add: Wait_Some Let_def)
  from a b show ?thesis by blast
qed

subsection \<open>A SuccessResult returned as an error\<close>

text \<open>
  C9. \<^verbatim>\<open>SuccessResult{}\<close> is a non-nil error that \<open>Wait\<close> unwraps to \<^verbatim>\<open>nil\<close>, so a
  failing run can be observed as success. Two tasks, the first returning
  \<^verbatim>\<open>SuccessResult{}\<close> and the second a genuine error, reporting in that order: the
  coordinator keeps \<^verbatim>\<open>SuccessResult{}\<close> as \<open>firstError\<close>, commits it, and \<open>Wait\<close>
  returns \<^verbatim>\<open>nil\<close>. A single task that returns \<^verbatim>\<open>SuccessResult{}\<close>, or panics with
  it, is observed as success too.
\<close>

theorem SuccessResult_masks_failure:
  "(\<exists>s. pexec [\<lambda>c. Returns (Some SuccessResult), \<lambda>c. Returns (Some (ErrorString ''boom''))]
          [Finish 0, Finish 1, Send 0, Send 1, Recv, Recv, Commit]
          (NewParallelGoture None
            [\<lambda>c. Returns (Some SuccessResult), \<lambda>c. Returns (Some (ErrorString ''boom''))]) = Some s \<and>
        arrivals s = [Some SuccessResult, Some (ErrorString ''boom'')] \<and>
        coordinator s = Exited (Some SuccessResult) \<and>
        localCtx s = Some SuccessResult \<and>
        Wait (localCtx s) = Returned None) \<and>
   (\<exists>s. gexec (\<lambda>c. Returns (Some SuccessResult)) [GFinish]
          (NewGoture None (\<lambda>c. Returns (Some SuccessResult))) = Some s \<and>
        g_ctx s = Some SuccessResult \<and> Wait (g_ctx s) = Returned None) \<and>
   (\<exists>s. gexec (\<lambda>c. Panics (AnyError SuccessResult)) [GFinish]
          (NewGoture None (\<lambda>c. Panics (AnyError SuccessResult))) = Some s \<and>
        g_ctx s = Some SuccessResult \<and> Wait (g_ctx s) = Returned None)"
  by (simp add: NewParallelGoture_def NewGoture_def parallel_body_report report_def
      goture_body_Returns goture_body_Panics Wait_Some)

subsection \<open>No tasks under a canceled parent\<close>

text \<open>
  C10, as amended. Called with no task on a parent context that is already canceled with
  cause \<open>c\<close>, the child context carries \<open>c\<close> (the \<^verbatim>\<open>SuccessResult\<close> commit comes
  second and changes nothing), and \<open>Wait\<close> returns \<open>c\<close>, not \<^verbatim>\<open>nil\<close>, whenever \<open>c\<close>
  is not itself a \<^verbatim>\<open>SuccessResult\<close> value; so it is from the constructor's first
  statement on, through its \<^verbatim>\<open>cancel(SuccessResult{})\<close> and whatever happens afterwards.
\<close>

theorem NewParallelGoture_no_tasks_canceled_parent:
  "localCtx (NewParallelGoture (Some c) []) = Some c \<and>
   (c \<noteq> SuccessResult \<longrightarrow> Wait (localCtx (NewParallelGoture (Some c) [])) = Returned (Some c)) \<and>
   (\<forall>evs s. pexec [] evs (NewParallelGoture (Some c) []) = Some s \<longrightarrow>
      localCtx s = Some c \<and>
      (c \<noteq> SuccessResult \<longrightarrow> Wait (localCtx s) = Returned (Some c)))"
proof -
  have a: "localCtx (NewParallelGoture (Some c) []) = Some c"
    by (simp add: NewParallelGoture_def)
  have "localCtx s = Some c" if "pexec [] evs (NewParallelGoture (Some c) []) = Some s"
    for evs s
    using a that by (rule pexec_ctx_stable)
  with a show ?thesis by (simp add: Wait_Some)
qed

theorem NewParallelGoture_no_tasks_canceled_parent_witness:
  "DeadlineExceeded \<noteq> SuccessResult \<and>
   Wait (localCtx (NewParallelGoture (Some DeadlineExceeded) [])) = Returned (Some DeadlineExceeded) \<and>
   (\<exists>s. pexec [] [Commit] (NewParallelGoture (Some DeadlineExceeded) []) = Some s \<and>
      coordinator s = NoCoordinator \<and>
      Wait (localCtx s) = Returned (Some DeadlineExceeded))"
proof -
  let ?s = "\<lparr>parentCtx = Some DeadlineExceeded, localCtx = Some DeadlineExceeded, units = [],
     completed = [], capacity = 0, coordinator = NoCoordinator, arrivals = [],
     crashed = False\<rparr>"
  note inst = NewParallelGoture_no_tasks_canceled_parent[of DeadlineExceeded]
  have 1: "DeadlineExceeded \<noteq> SuccessResult" by simp
  have 2: "pexec [] [Commit] (NewParallelGoture (Some DeadlineExceeded) []) = Some ?s"
    by (simp add: NewParallelGoture_def)
  from inst 1
  have 3: "Wait (localCtx (NewParallelGoture (Some DeadlineExceeded) [])) =
      Returned (Some DeadlineExceeded)"
    by blast
  have "localCtx ?s = Some DeadlineExceeded \<and>
      (DeadlineExceeded \<noteq> SuccessResult \<longrightarrow> Wait (localCtx ?s) = Returned (Some DeadlineExceeded))"
    by (rule inst[THEN conjunct2, THEN conjunct2, rule_format, OF 2])
  with 1 have 4: "Wait (localCtx ?s) = Returned (Some DeadlineExceeded)" by blast
  have 5: "coordinator ?s = NoCoordinator" by simp
  from 1 2 3 4 5 show ?thesis by blast
qed

text \<open>
  C10 as stated fails when the parent's cause is a \<^verbatim>\<open>SuccessResult\<close> value (the cause
  of the context of a future that has completed with success): \<open>Wait\<close> returns \<^verbatim>\<open>nil\<close>.
\<close>

theorem NewParallelGoture_no_tasks_canceled_parent_counterexample:
  "localCtx (NewParallelGoture (Some SuccessResult) []) = Some SuccessResult \<and>
   Wait (localCtx (NewParallelGoture (Some SuccessResult) [])) = Returned None \<and>
   Wait (localCtx (NewParallelGoture (Some SuccessResult) [])) \<noteq> Returned (Some SuccessResult) \<and>
   (\<exists>s. pexec [] [Commit] (NewParallelGoture (Some SuccessResult) []) = Some s \<and>
      coordinator s = NoCoordinator \<and>
      Wait (localCtx s) = Returned None \<and>
      Wait (localCtx s) \<noteq> Returned (Some SuccessResult))"
  by (simp add: NewParallelGoture_def Wait_Some)

end
